theory Spec2Isabelle
  imports Complex_Main "HOL-Library.Sublist" "HOL-Library.Word"
begin

section \<open>Objects of the model hierarchy\<close>

text \<open>
  Python objects have identity, and the export utilities both share objects (a bias
  parameter) and mutate them in place (the child table of a module). The embedding
  therefore keeps an explicit store: three growing lists of objects, a reference being
  the index of the object. Allocation appends, so a new reference is always fresh.
\<close>

type_synonym ref = nat

datatype error = ValueError | RuntimeError | KeyError | TypeError

text \<open>Tensor elements are raw machine values; no arithmetic on them is modelled.\<close>

datatype elem = F32 "32 word" | I64 "64 word"

text \<open>A Python float (eps, momentum) as its 64 bit pattern.\<close>

type_synonym pyfloat = "64 word"

text \<open>A tensor object: a shape over a storage, which views of the tensor share.\<close>

record tensor =
  shape :: "nat list"
  storage :: ref

text \<open>
  The configuration and parameters of a convolution module. The geometry type is
  \<open>nat\<close> for the 1-tuples of \<open>nn.Conv1d\<close> (the code reads component 0 of each)
  and \<open>nat \<times> nat\<close> for the pairs of \<open>nn.Conv2d\<close>.
\<close>

record 'g conv =
  in_channels :: nat
  out_channels :: nat
  kernel_size :: 'g
  stride :: 'g
  padding :: 'g
  dilation :: 'g
  groups :: nat
  padding_mode :: string
  weight :: ref
  bias :: "ref option"

text \<open>
  A batch normalisation module, 1-D or 2-D: the scalar configuration and the five
  entries of its state (two parameters, three buffers), each absent (None) or a tensor.
\<close>

record batchnorm =
  num_features :: nat
  eps :: pyfloat
  momentum :: "pyfloat option"
  affine :: bool
  track_running_stats :: bool
  bn_weight :: "ref option"
  bn_bias :: "ref option"
  running_mean :: "ref option"
  running_var :: "ref option"
  num_batches_tracked :: "ref option"

datatype pyval =
    VNone
  | VInt int
  | VBool bool
  | VFloat pyfloat
  | VStr string
  | VTuple "pyval list"
  | VDict "(string \<times> pyval) list"

text \<open>
  Any other module class: the name of its torch class, whether the class defines
  \<open>__len__\<close> as the number of children (Sequential, ModuleList, ModuleDict), its
  \<open>__constants__\<close> and its attribute dictionary.
\<close>

record plain =
  cls :: string
  defines_len :: bool
  constants :: "string list"
  attrs :: "(string \<times> pyval) list"

datatype payload =
    Conv1d "nat conv"
  | Conv2d "(nat \<times> nat) conv"
  | BatchNorm1d batchnorm
  | BatchNorm2d batchnorm
  | Plain plain

text \<open>
  A module object: \<open>type_name\<close> is \<open>type(m).__name__\<close> (a user subclass of
  \<open>nn.Conv1d\<close> keeps the payload and changes the name), \<open>modules\<close> is the ordered
  dictionary \<open>_modules\<close> from child name to child.
\<close>

record module =
  type_name :: string
  payload :: payload
  modules :: "(string \<times> ref) list"

record heap =
  mods :: "module list"
  tensors :: "tensor list"
  storages :: "elem list list"

definition alloc_storage :: "elem list \<Rightarrow> heap \<Rightarrow> ref \<times> heap" where
  "alloc_storage d h = (length (storages h), h\<lparr>storages := storages h @ [d]\<rparr>)"

definition alloc_tensor :: "tensor \<Rightarrow> heap \<Rightarrow> ref \<times> heap" where
  "alloc_tensor t h = (length (tensors h), h\<lparr>tensors := tensors h @ [t]\<rparr>)"

definition alloc_module :: "module \<Rightarrow> heap \<Rightarrow> ref \<times> heap" where
  "alloc_module m h = (length (mods h), h\<lparr>mods := mods h @ [m]\<rparr>)"

text \<open>
  The torch class a module is an instance of, for \<open>isinstance\<close>: one of the four
  classes with a payload of their own, or another class, given by its name.
\<close>

datatype torch_class = nn_Conv1d | nn_Conv2d | nn_BatchNorm1d | nn_BatchNorm2d | nn_other string

fun class_of :: "payload \<Rightarrow> torch_class" where
  "class_of (Conv1d c) = nn_Conv1d"
| "class_of (Conv2d c) = nn_Conv2d"
| "class_of (BatchNorm1d b) = nn_BatchNorm1d"
| "class_of (BatchNorm2d b) = nn_BatchNorm2d"
| "class_of (Plain p) = nn_other (cls p)"

definition isinstance :: "module \<Rightarrow> torch_class \<Rightarrow> bool" where
  "isinstance m C = (class_of (payload m) = C)"

text \<open>
  Truth value of a module object, as \<open>if swapped:\<close> tests it: an object is false
  when its class defines \<open>__len__\<close> and the length is 0.
\<close>

definition truthy :: "module \<Rightarrow> bool" where
  "truthy m = (case payload m of
                 Plain p \<Rightarrow> \<not> (defines_len p \<and> modules m = [])
               | _ \<Rightarrow> True)"

section \<open>expand_Conv1D\<close>

text \<open>
  \<open>t.unsqueeze(-1)\<close>: a new tensor object, a view of the same storage whose shape has
  one more dimension of size 1 at the end. \<open>nn.Parameter(t)\<close>: a new parameter
  object over the data of \<open>t\<close>.
\<close>

definition unsqueeze_last :: "ref \<Rightarrow> heap \<Rightarrow> ref \<times> heap" where
  "unsqueeze_last t h =
     alloc_tensor \<lparr>shape = shape (tensors h ! t) @ [1], storage = storage (tensors h ! t)\<rparr> h"

definition Parameter :: "ref \<Rightarrow> heap \<Rightarrow> ref \<times> heap" where
  "Parameter t h =
     alloc_tensor \<lparr>shape = shape (tensors h ! t), storage = storage (tensors h ! t)\<rparr> h"

text \<open>
  The value \<open>close\<close> of the validation loop is a float computed by torch from a random
  sample and two forward passes. The embedding does not compute it: the outcome of
  iteration \<open>i\<close> is a parameter \<open>probe i\<close>, either an exception raised by the forward
  passes or the float, which is finite, infinite or not a number.
\<close>

datatype fl = Fin real | PInf | NInf | NaN

text \<open>\<open>close.abs() > 1e-6\<close>; a comparison with NaN is false.\<close>

fun abs_gt :: "fl \<Rightarrow> real \<Rightarrow> bool" where
  "abs_gt (Fin x) t = (\<bar>x\<bar> > t)"
| "abs_gt PInf t = True"
| "abs_gt NInf t = True"
| "abs_gt NaN t = False"

fun validate :: "(nat \<Rightarrow> error + fl) \<Rightarrow> nat list \<Rightarrow> error option" where
  "validate probe [] = None"
| "validate probe (i # rest) =
     (case probe i of
        Inl e \<Rightarrow> Some e
      | Inr close \<Rightarrow>
          if abs_gt close (1 / 10 ^ 6) then Some ValueError else validate probe rest)"

text \<open>
  \<open>nn.Conv2d(...)\<close> checks its arguments exactly as \<open>nn.Conv1d\<close> did when the source
  module was built, and the weight and bias it initialises are overwritten at once, so
  the constructor is modelled by the record it leaves after the two assignments.
\<close>

definition expand_Conv1D :: "(nat \<Rightarrow> error + fl) \<Rightarrow> heap \<Rightarrow> ref \<Rightarrow> (error + ref option) \<times> heap" where
  "expand_Conv1D probe h conv1d =
     (case payload (mods h ! conv1d) of
        Conv1d c \<Rightarrow>
          (let (v, h1) = unsqueeze_last (weight c) h;
               (w, h2) = Parameter v h1;
               (conv2d, h3) = alloc_module
                  \<lparr>type_name = ''Conv2d'',
                   payload = Conv2d
                     \<lparr>in_channels = in_channels c,
                      out_channels = out_channels c,
                      kernel_size = (kernel_size c, 1),
                      stride = (stride c, 1),
                      padding = (padding c, 0),
                      dilation = (dilation c, 1),
                      groups = groups c,
                      padding_mode = padding_mode c,
                      weight = w,
                      bias = bias c\<rparr>,
                   modules = []\<rparr> h2
           in case validate probe [0 ..< 2] of
                Some e \<Rightarrow> (Inl e, h3)
              | None \<Rightarrow> (Inr (Some conv2d), h3))
      | _ \<Rightarrow> (Inr None, h))"

section \<open>expand_BatchNorm1d\<close>

definition new_tensor :: "nat list \<Rightarrow> elem list \<Rightarrow> heap \<Rightarrow> ref \<times> heap" where
  "new_tensor sh d h =
     (let (s, h1) = alloc_storage d h in alloc_tensor \<lparr>shape = sh, storage = s\<rparr> h1)"

definition new_opt_tensor :: "bool \<Rightarrow> nat list \<Rightarrow> elem list \<Rightarrow> heap \<Rightarrow> ref option \<times> heap" where
  "new_opt_tensor present sh d h =
     (if present then (let (t, h1) = new_tensor sh d h in (Some t, h1)) else (None, h))"

definition f32_zero :: elem where
  "f32_zero = F32 0"

definition f32_one :: elem where
  "f32_one = F32 0x3F800000"

text \<open>
  \<open>nn.BatchNorm2d(num_features, eps, momentum, affine, track_running_stats)\<close>:
  weight and bias exist when \<open>affine\<close>, initialised to ones and zeros; the running
  mean (zeros), the running variance (ones) and the update count (a 0-dimensional
  integer 0) exist when \<open>track_running_stats\<close>.
\<close>

definition BatchNorm2d_init ::
  "nat \<Rightarrow> pyfloat \<Rightarrow> pyfloat option \<Rightarrow> bool \<Rightarrow> bool \<Rightarrow> heap \<Rightarrow> batchnorm \<times> heap" where
  "BatchNorm2d_init nf e mo aff track h =
     (let (w, h1) = new_opt_tensor aff [nf] (replicate nf f32_one) h;
          (b, h2) = new_opt_tensor aff [nf] (replicate nf f32_zero) h1;
          (rm, h3) = new_opt_tensor track [nf] (replicate nf f32_zero) h2;
          (rv, h4) = new_opt_tensor track [nf] (replicate nf f32_one) h3;
          (nbt, h5) = new_opt_tensor track [] [I64 0] h4
      in (\<lparr>num_features = nf, eps = e, momentum = mo, affine = aff,
           track_running_stats = track, bn_weight = w, bn_bias = b,
           running_mean = rm, running_var = rv, num_batches_tracked = nbt\<rparr>, h5))"

text \<open>
  \<open>state_dict()\<close>: the parameters, then the buffers, that are not None, under their
  names and in their order of registration.
\<close>

definition state_dict :: "batchnorm \<Rightarrow> (string \<times> ref) list" where
  "state_dict b =
     concat (map (\<lambda>(k, t). case t of None \<Rightarrow> [] | Some r \<Rightarrow> [(k, r)])
       [(''weight'', bn_weight b), (''bias'', bn_bias b),
        (''running_mean'', running_mean b), (''running_var'', running_var b),
        (''num_batches_tracked'', num_batches_tracked b)])"

text \<open>\<open>p.copy_(t)\<close>: the data of \<open>t\<close> is written into the storage of \<open>p\<close>.\<close>

definition tensor_copy :: "ref \<Rightarrow> ref \<Rightarrow> heap \<Rightarrow> heap" where
  "tensor_copy p t h =
     h\<lparr>storages := (storages h)[storage (tensors h ! p) := storages h ! storage (tensors h ! t)]\<rparr>"

text \<open>
  The strict \<open>load_state_dict\<close>: every entry of the destination is looked up in the
  source dictionary; a missing key or a different shape is recorded as an error and
  the entry skipped, otherwise the data is copied. A source key that the destination
  does not have is an error too. Errors are raised together at the end.
\<close>

fun copy_entries :: "(string \<times> ref) list \<Rightarrow> (string \<times> ref) list \<Rightarrow> heap \<Rightarrow> bool \<times> heap" where
  "copy_entries [] src h = (True, h)"
| "copy_entries ((k, p) # rest) src h =
     (case map_of src k of
        None \<Rightarrow> (False, snd (copy_entries rest src h))
      | Some t \<Rightarrow>
          if shape (tensors h ! t) \<noteq> shape (tensors h ! p)
          then (False, snd (copy_entries rest src h))
          else copy_entries rest src (tensor_copy p t h))"

definition load_state_dict :: "batchnorm \<Rightarrow> (string \<times> ref) list \<Rightarrow> heap \<Rightarrow> error option \<times> heap" where
  "load_state_dict dst src h =
     (let (ok, h1) = copy_entries (state_dict dst) src h;
          unexpected = filter (\<lambda>(k, t). map_of (state_dict dst) k = None) src
      in (if ok \<and> unexpected = [] then None else Some RuntimeError, h1))"

definition expand_BatchNorm1d :: "heap \<Rightarrow> ref \<Rightarrow> (error + ref option) \<times> heap" where
  "expand_BatchNorm1d h bn1d =
     (case payload (mods h ! bn1d) of
        BatchNorm1d b \<Rightarrow>
          (let (b2, h1) = BatchNorm2d_init (num_features b) (eps b) (momentum b) (affine b)
                             (track_running_stats b) h;
               (mod', h2) = alloc_module
                  \<lparr>type_name = ''BatchNorm2d'', payload = BatchNorm2d b2, modules = []\<rparr> h1;
               bn_state = state_dict b;
               (err, h3) = load_state_dict b2 bn_state h2
           in case err of
                Some e \<Rightarrow> (Inl e, h3)
              | None \<Rightarrow> (Inr (Some mod'), h3))
      | _ \<Rightarrow> (Inr None, h))"



section \<open>simple_expand\<close>

text \<open>
  \<open>mod.__constants__\<close> and \<open>getattr(mod, name, None)\<close>.  For the convolution and
  batch normalisation classes the constants are those torch declares; a convolution
  that is not transposed has output padding 0.
\<close>

fun constants_of :: "payload \<Rightarrow> string list" where
  "constants_of (Plain p) = constants p"
| "constants_of (BatchNorm1d b) =
     [''track_running_stats'', ''momentum'', ''eps'', ''num_features'', ''affine'']"
| "constants_of (BatchNorm2d b) =
     [''track_running_stats'', ''momentum'', ''eps'', ''num_features'', ''affine'']"
| "constants_of c =
     [''stride'', ''padding'', ''dilation'', ''groups'', ''padding_mode'', ''output_padding'',
      ''in_channels'', ''out_channels'', ''kernel_size'']"

definition vnat :: "nat \<Rightarrow> pyval" where
  "vnat n = VInt (int n)"

definition conv_attrs :: "('g \<Rightarrow> pyval) \<Rightarrow> pyval \<Rightarrow> 'g conv \<Rightarrow> (string \<times> pyval) list" where
  "conv_attrs tup zero c =
     [(''stride'', tup (stride c)), (''padding'', tup (padding c)),
      (''dilation'', tup (dilation c)), (''groups'', vnat (groups c)),
      (''padding_mode'', VStr (padding_mode c)), (''output_padding'', zero),
      (''in_channels'', vnat (in_channels c)), (''out_channels'', vnat (out_channels c)),
      (''kernel_size'', tup (kernel_size c))]"

definition bn_attrs :: "batchnorm \<Rightarrow> (string \<times> pyval) list" where
  "bn_attrs b =
     [(''track_running_stats'', VBool (track_running_stats b)),
      (''momentum'', (case momentum b of None \<Rightarrow> VNone | Some x \<Rightarrow> VFloat x)),
      (''eps'', VFloat (eps b)), (''num_features'', vnat (num_features b)),
      (''affine'', VBool (affine b))]"

fun attrs_of :: "payload \<Rightarrow> (string \<times> pyval) list" where
  "attrs_of (Plain p) = attrs p"
| "attrs_of (BatchNorm1d b) = bn_attrs b"
| "attrs_of (BatchNorm2d b) = bn_attrs b"
| "attrs_of (Conv1d c) = conv_attrs (\<lambda>k. VTuple [vnat k]) (VTuple [VInt 0]) c"
| "attrs_of (Conv2d c) =
     conv_attrs (\<lambda>(k, l). VTuple [vnat k, vnat l]) (VTuple [VInt 0, VInt 0]) c"

definition getattr :: "module \<Rightarrow> string \<Rightarrow> pyval" where
  "getattr m name = (case map_of (attrs_of (payload m)) name of None \<Rightarrow> VNone | Some v \<Rightarrow> v)"

text \<open>
  The destination class is its constructor: from the positional arguments to the
  module it builds, or the exception it raises.
\<close>

definition simple_expand ::
  "torch_class \<Rightarrow> (pyval list \<Rightarrow> error + module) \<Rightarrow> heap \<Rightarrow> ref \<Rightarrow> (error + ref option) \<times> heap" where
  "simple_expand BaseT DestT h mod' =
     (if \<not> isinstance (mods h ! mod') BaseT then (Inr None, h)
      else
        (let args = map (getattr (mods h ! mod')) (constants_of (payload (mods h ! mod')))
         in case DestT args of
              Inl e \<Rightarrow> (Inl e, h)
            | Inr m \<Rightarrow> (let (out, h1) = alloc_module m h in (Inr (Some out), h1))))"

section \<open>swap_expanded\<close>

text \<open>\<open>path.split(".")\<close>: the empty string splits into one empty segment.\<close>

fun split_dot :: "string \<Rightarrow> string list" where
  "split_dot [] = [[]]"
| "split_dot (c # cs) =
     (if c = CHR ''.'' then [] # split_dot cs
      else (c # hd (split_dot cs)) # tl (split_dot cs))"

text \<open>
  \<open>d[k] = v\<close> on an ordered dictionary: the value of an existing key is replaced
  where it stands, a new key goes to the end.
\<close>

fun dict_set :: "'k \<Rightarrow> 'v \<Rightarrow> ('k \<times> 'v) list \<Rightarrow> ('k \<times> 'v) list" where
  "dict_set k v [] = [(k, v)]"
| "dict_set k v ((k', v') # rest) =
     (if k' = k then (k, v) # rest else (k', v') # dict_set k v rest)"

text \<open>
  The inner loop: \<open>parent_mod = parent_mod._modules[sub_path]\<close> for each segment; a
  segment that is not a child raises KeyError.
\<close>

fun walk :: "heap \<Rightarrow> ref \<Rightarrow> string list \<Rightarrow> error + ref" where
  "walk h parent_mod [] = Inr parent_mod"
| "walk h parent_mod (sub_path # rest) =
     (case map_of (modules (mods h ! parent_mod)) sub_path of
        None \<Rightarrow> Inl KeyError
      | Some child \<Rightarrow> walk h child rest)"

text \<open>\<open>parent_mod._modules[name] = new_mod\<close>.\<close>

definition set_child :: "heap \<Rightarrow> ref \<Rightarrow> string \<Rightarrow> ref \<Rightarrow> heap" where
  "set_child h parent_mod name new_mod =
     h\<lparr>mods := (mods h)[parent_mod :=
          (mods h ! parent_mod)\<lparr>modules := dict_set name new_mod (modules (mods h ! parent_mod))\<rparr>]\<rparr>"

text \<open>
  The mapping is a dictionary, iterated in insertion order. The result is the model
  that was passed in, or the exception, with the store as the loop left it.
\<close>

fun swap_expanded :: "heap \<Rightarrow> ref \<Rightarrow> (string \<times> ref) list \<Rightarrow> (error + ref) \<times> heap" where
  "swap_expanded h model [] = (Inr model, h)"
| "swap_expanded h model ((path, new_mod) # rest) =
     (let expanded_path = split_dot path
      in case walk h model (butlast expanded_path) of
           Inl e \<Rightarrow> (Inl e, h)
         | Inr parent_mod \<Rightarrow>
             swap_expanded (set_child h parent_mod (last expanded_path) new_mod) model rest)"

section \<open>auto_expand\<close>

text \<open>
  \<open>model.named_modules()\<close> yields \<open>(prefix, module)\<close> for the module and then, for
  each child in order, everything the child yields under the prefix extended by the
  child's name; a module already yielded (the set \<open>memo\<close>) yields nothing. The
  recursion of the generator is kept here as an explicit stack of the pairs still to
  visit. A reference outside the store denotes no Python object; skipping it makes
  the function total.
\<close>

definition child_prefix :: "string \<Rightarrow> string \<Rightarrow> string" where
  "child_prefix pfx name = pfx @ (if pfx = [] then [] else ''.'') @ name"

function named_modules_aux :: "heap \<Rightarrow> ref list \<Rightarrow> (string \<times> ref) list \<Rightarrow> (string \<times> ref) list" where
  "named_modules_aux h memo [] = []"
| "named_modules_aux h memo ((pfx, m) # stack) =
     (if m \<in> set memo \<or> \<not> m < length (mods h) then named_modules_aux h memo stack
      else (pfx, m) #
           named_modules_aux h (m # memo)
             (map (\<lambda>(name, child). (child_prefix pfx name, child)) (modules (mods h ! m))
              @ stack))"
  by pat_completeness auto
termination
proof (relation "inv_image (less_than <*lex*> less_than)
         (\<lambda>(h, memo, stack). (card ({..<length (mods h)} - set memo), length stack))")
  show "wf (inv_image (less_than <*lex*> less_than)
         (\<lambda>(h, memo, stack). (card ({..<length (mods h)} - set memo), length stack)))"
    by (intro wf_inv_image wf_lex_prod wf_less_than)
next
  fix h :: heap and memo :: "ref list" and pfx :: string and m :: ref
    and stack :: "(string \<times> ref) list"
  assume "m \<in> set memo \<or> \<not> m < length (mods h)"
  then show "((h, memo, stack), (h, memo, (pfx, m) # stack))
     \<in> inv_image (less_than <*lex*> less_than)
         (\<lambda>(h, memo, stack). (card ({..<length (mods h)} - set memo), length stack))"
    by simp
next
  fix h :: heap and memo :: "ref list" and pfx :: string and m :: ref
    and stack :: "(string \<times> ref) list"
  assume a: "\<not> (m \<in> set memo \<or> \<not> m < length (mods h))"
  then have "{..<length (mods h)} - set (m # memo) \<subset> {..<length (mods h)} - set memo"
    by auto
  then have "card ({..<length (mods h)} - set (m # memo)) < card ({..<length (mods h)} - set memo)"
    by (intro psubset_card_mono) auto
  then show "((h, m # memo,
       map (\<lambda>(name, child). (child_prefix pfx name, child)) (modules (mods h ! m)) @ stack),
      (h, memo, (pfx, m) # stack))
     \<in> inv_image (less_than <*lex*> less_than)
         (\<lambda>(h, memo, stack). (card ({..<length (mods h)} - set memo), length stack))"
    by simp
qed

definition named_modules :: "heap \<Rightarrow> ref \<Rightarrow> (string \<times> ref) list" where
  "named_modules h model = named_modules_aux h [] [([], model)]"

text \<open>
  A conversion function takes the store and a module and gives None, a new module,
  or an exception, with the store it leaves. The rule table is a dictionary from
  \<open>type(m).__name__\<close> to conversion functions.
\<close>

type_synonym expansion = "heap \<Rightarrow> ref \<Rightarrow> (error + ref option) \<times> heap"

text \<open>
  The loop over \<open>model.named_modules()\<close>. The generator is run before the loop body
  here; in Python the two are interleaved, which is the same as long as no conversion
  function that returns has assigned to a child table of the hierarchy it is
  converting (a conversion function that raises ends the loop, whatever it assigned
  before).
\<close>

fun build_mapping ::
  "(string \<rightharpoonup> expansion) \<Rightarrow> (string \<times> ref) list \<Rightarrow> (string \<times> ref) list \<Rightarrow> heap
     \<Rightarrow> (error + (string \<times> ref) list) \<times> heap" where
  "build_mapping expansions [] mapping h = (Inr mapping, h)"
| "build_mapping expansions ((name, m) # rest) mapping h =
     (case expansions (type_name (mods h ! m)) of
        None \<Rightarrow> build_mapping expansions rest mapping h
      | Some f \<Rightarrow>
          (case f h m of
             (Inl e, h1) \<Rightarrow> (Inl e, h1)
           | (Inr None, h1) \<Rightarrow> build_mapping expansions rest mapping h1
           | (Inr (Some swapped), h1) \<Rightarrow>
               if truthy (mods h1 ! swapped)
               then build_mapping expansions rest (dict_set name swapped mapping) h1
               else build_mapping expansions rest mapping h1))"

text \<open>
  The constructors of the two pooling classes of the default table, from positional
  arguments: \<open>AdaptiveAvgPool2d(output_size)\<close> and \<open>AvgPool2d(kernel_size,
  stride=None, padding=0, ceil_mode=False, count_include_pad=True,
  divisor_override=None)\<close>, where a stride of None is the kernel size.
\<close>

definition arg_or :: "pyval list \<Rightarrow> nat \<Rightarrow> pyval \<Rightarrow> pyval" where
  "arg_or args i d = (if i < length args then args ! i else d)"

definition AdaptiveAvgPool2d :: "pyval list \<Rightarrow> error + module" where
  "AdaptiveAvgPool2d args =
     (case args of
        [output_size] \<Rightarrow>
          Inr \<lparr>type_name = ''AdaptiveAvgPool2d'',
               payload = Plain \<lparr>cls = ''AdaptiveAvgPool2d'', defines_len = False,
                                constants = [''output_size''],
                                attrs = [(''output_size'', output_size)]\<rparr>,
               modules = []\<rparr>
      | _ \<Rightarrow> Inl TypeError)"

definition AvgPool2d :: "pyval list \<Rightarrow> error + module" where
  "AvgPool2d args =
     (if args = [] \<or> 6 < length args then Inl TypeError
      else
        Inr \<lparr>type_name = ''AvgPool2d'',
             payload = Plain \<lparr>cls = ''AvgPool2d'', defines_len = False,
               constants = [''kernel_size'', ''stride'', ''padding'', ''ceil_mode'',
                            ''count_include_pad'', ''divisor_override''],
               attrs = [(''kernel_size'', args ! 0),
                        (''stride'', (if arg_or args 1 VNone = VNone then args ! 0
                                      else arg_or args 1 VNone)),
                        (''padding'', arg_or args 2 (VInt 0)),
                        (''ceil_mode'', arg_or args 3 (VBool False)),
                        (''count_include_pad'', arg_or args 4 (VBool True)),
                        (''divisor_override'', arg_or args 5 VNone)]\<rparr>,
             modules = []\<rparr>)"

text \<open>
  The default table. \<open>oracle m\<close> gives the validation outcomes of the convolution
  \<open>m\<close>.
\<close>

definition default_expansions :: "(ref \<Rightarrow> nat \<Rightarrow> error + fl) \<Rightarrow> (string \<rightharpoonup> expansion)" where
  "default_expansions oracle =
     [''Conv1d'' \<mapsto> (\<lambda>h m. expand_Conv1D (oracle m) h m),
      ''BatchNorm1d'' \<mapsto> expand_BatchNorm1d,
      ''AdaptiveAvgPool1d'' \<mapsto> simple_expand (nn_other ''AdaptiveAvgPool1d'') AdaptiveAvgPool2d,
      ''AvgPool1d'' \<mapsto> simple_expand (nn_other ''AvgPool1d'') AvgPool2d]"

text \<open>The rule table of a call: the caller's, or the default one.\<close>

definition rule_table ::
  "(ref \<Rightarrow> nat \<Rightarrow> error + fl) \<Rightarrow> (string \<rightharpoonup> expansion) option \<Rightarrow> (string \<rightharpoonup> expansion)" where
  "rule_table oracle expansions =
     (case expansions of None \<Rightarrow> default_expansions oracle | Some t \<Rightarrow> t)"

text \<open>
  auto_expand: the mapping is built over the whole traversal, then substituted. The
  warning that counts the swapped modules goes to the logger and is not modelled.
\<close>

definition auto_expand ::
  "(ref \<Rightarrow> nat \<Rightarrow> error + fl) \<Rightarrow> heap \<Rightarrow> ref \<Rightarrow> (string \<rightharpoonup> expansion) option
     \<Rightarrow> (error + ref) \<times> heap" where
  "auto_expand oracle h model expansions =
     (case build_mapping (rule_table oracle expansions) (named_modules h model) [] h of
        (Inl e, h1) \<Rightarrow> (Inl e, h1)
      | (Inr mapping, h1) \<Rightarrow> swap_expanded h1 model mapping)"

section \<open>Well-formed hierarchies\<close>

text \<open>
  What Python and torch guarantee of every store: a child is an object of the store,
  the names of a child table are distinct, and \<open>add_module\<close> admits no empty name
  and no name with a dot.
\<close>

definition wf_heap :: "heap \<Rightarrow> bool" where
  "wf_heap h \<longleftrightarrow>
     (\<forall>m \<in> set (mods h).
        distinct (map fst (modules m)) \<and>
        (\<forall>(name, child) \<in> set (modules m).
           child < length (mods h) \<and> name \<noteq> [] \<and> CHR ''.'' \<notin> set name))"

section \<open>run_injected\<close>

text \<open>
  A callable is what \<open>inspect.signature\<close> reads of it, the parameters in their
  declared order, and its body, a function of the bound parameters. A default of
  None (of the option type) is \<open>Parameter.empty\<close>.
\<close>

datatype param_kind =
  POSITIONAL_ONLY | POSITIONAL_OR_KEYWORD | VAR_POSITIONAL | KEYWORD_ONLY | VAR_KEYWORD

record parameter =
  pname :: string
  pkind :: param_kind
  pdefault :: "pyval option"

record callable =
  signature :: "parameter list"
  body :: "(string \<times> pyval) list \<Rightarrow> pyval"

text \<open>
  \<open>Signature.bind(*args, **kwargs)\<close>, in the two phases of the library's \<open>_bind\<close>
  (\<open>inspect.py\<close> of CPython 3.11). The first consumes the positional arguments along
  the parameters and stops at the first parameter that no positional argument is left
  for; it gives the arguments bound so far and the parameters not yet consumed. A
  named argument with the name of a parameter that a positional argument fills is an
  error, unless the parameter is positional-only (the named argument is then left for
  the \<open>**kwargs\<close> parameter).
\<close>

fun bind_positional ::
  "parameter list \<Rightarrow> pyval list \<Rightarrow> (string \<times> pyval) list \<Rightarrow> (string \<times> pyval) list
     \<Rightarrow> error + ((string \<times> pyval) list \<times> parameter list)" where
  "bind_positional [] [] kwargs arguments = Inr (arguments, [])"
| "bind_positional (param # parameters) [] kwargs arguments =
     (if pkind param = VAR_POSITIONAL then Inr (arguments, parameters)
      else if map_of kwargs (pname param) \<noteq> None then
        (if pkind param = POSITIONAL_ONLY then Inl TypeError
         else Inr (arguments, param # parameters))
      else if pkind param = VAR_KEYWORD \<or> pdefault param \<noteq> None
        then Inr (arguments, param # parameters)
      else Inl TypeError)"
| "bind_positional [] (arg_val # arg_vals) kwargs arguments = Inl TypeError"
| "bind_positional (param # parameters) (arg_val # arg_vals) kwargs arguments =
     (if pkind param = VAR_KEYWORD \<or> pkind param = KEYWORD_ONLY then Inl TypeError
      else if pkind param = VAR_POSITIONAL
        then Inr (dict_set (pname param) (VTuple (arg_val # arg_vals)) arguments, parameters)
      else if map_of kwargs (pname param) \<noteq> None \<and> pkind param \<noteq> POSITIONAL_ONLY
        then Inl TypeError
      else bind_positional parameters arg_vals kwargs
             (dict_set (pname param) arg_val arguments))"

text \<open>\<open>kwargs.pop(name)\<close> for a key that is present.\<close>

definition dict_pop :: "'k \<Rightarrow> ('k \<times> 'v) list \<Rightarrow> ('k \<times> 'v) list" where
  "dict_pop k kvs = filter (\<lambda>(k', v). k' \<noteq> k) kvs"

text \<open>
  The second phase binds the remaining parameters by name, taking each from the
  named arguments; it remembers the \<open>**kwargs\<close> parameter.
\<close>

fun bind_keywords ::
  "parameter list \<Rightarrow> (string \<times> pyval) list \<Rightarrow> (string \<times> pyval) list \<Rightarrow> parameter option
     \<Rightarrow> error + ((string \<times> pyval) list \<times> (string \<times> pyval) list \<times> parameter option)" where
  "bind_keywords [] kwargs arguments kwargs_param = Inr (arguments, kwargs, kwargs_param)"
| "bind_keywords (param # parameters) kwargs arguments kwargs_param =
     (if pkind param = VAR_KEYWORD then bind_keywords parameters kwargs arguments (Some param)
      else if pkind param = VAR_POSITIONAL
        then bind_keywords parameters kwargs arguments kwargs_param
      else
        (case map_of kwargs (pname param) of
           None \<Rightarrow>
             if pdefault param = None then Inl TypeError
             else bind_keywords parameters kwargs arguments kwargs_param
         | Some arg_val \<Rightarrow>
             if pkind param = POSITIONAL_ONLY then Inl TypeError
             else bind_keywords parameters (dict_pop (pname param) kwargs)
                    (dict_set (pname param) arg_val arguments) kwargs_param))"

text \<open>
  Named arguments that are left go to the \<open>**kwargs\<close> parameter, or are an error
  when there is none.
\<close>

definition bind ::
  "parameter list \<Rightarrow> pyval list \<Rightarrow> (string \<times> pyval) list \<Rightarrow> error + (string \<times> pyval) list" where
  "bind sig args kwargs =
     (case bind_positional sig args kwargs [] of
        Inl e \<Rightarrow> Inl e
      | Inr (arguments, parameters) \<Rightarrow>
          (case bind_keywords parameters kwargs arguments None of
             Inl e \<Rightarrow> Inl e
           | Inr (arguments, kwargs, kwargs_param) \<Rightarrow>
               if kwargs \<noteq> [] then
                 (case kwargs_param of
                    Some p \<Rightarrow> Inr (dict_set (pname p) (VDict kwargs) arguments)
                  | None \<Rightarrow> Inl TypeError)
               else Inr arguments))"

text \<open>
  \<open>BoundArguments.apply_defaults()\<close>: the parameters in their order, each with its
  bound value, else its default, else the empty tuple or dictionary of a variadic
  parameter.
\<close>

fun apply_defaults :: "parameter list \<Rightarrow> (string \<times> pyval) list \<Rightarrow> (string \<times> pyval) list" where
  "apply_defaults [] arguments = []"
| "apply_defaults (param # parameters) arguments =
     (case map_of arguments (pname param) of
        Some v \<Rightarrow> (pname param, v) # apply_defaults parameters arguments
      | None \<Rightarrow>
          (case pdefault param of
             Some d \<Rightarrow> (pname param, d) # apply_defaults parameters arguments
           | None \<Rightarrow>
               if pkind param = VAR_POSITIONAL
                 then (pname param, VTuple []) # apply_defaults parameters arguments
               else if pkind param = VAR_KEYWORD
                 then (pname param, VDict []) # apply_defaults parameters arguments
               else apply_defaults parameters arguments))"

text \<open>
  \<open>BoundArguments.args\<close>: the values of the leading parameters that can be passed
  by position, up to the first one that is not bound.
\<close>

fun bound_args :: "parameter list \<Rightarrow> (string \<times> pyval) list \<Rightarrow> pyval list" where
  "bound_args [] arguments = []"
| "bound_args (param # parameters) arguments =
     (if pkind param = VAR_KEYWORD \<or> pkind param = KEYWORD_ONLY then []
      else
        (case map_of arguments (pname param) of
           None \<Rightarrow> []
         | Some arg \<Rightarrow>
             if pkind param = VAR_POSITIONAL
               then (case arg of VTuple vs \<Rightarrow> vs | _ \<Rightarrow> []) @ bound_args parameters arguments
             else arg # bound_args parameters arguments))"

text \<open>\<open>BoundArguments.kwargs\<close>: the bound values of the parameters after those.\<close>

fun bound_kwargs ::
  "bool \<Rightarrow> parameter list \<Rightarrow> (string \<times> pyval) list \<Rightarrow> (string \<times> pyval) list
     \<Rightarrow> (string \<times> pyval) list" where
  "bound_kwargs kwargs_started [] arguments kwargs = kwargs"
| "bound_kwargs kwargs_started (param # parameters) arguments kwargs =
     (if \<not> kwargs_started \<and> pkind param \<noteq> VAR_KEYWORD \<and> pkind param \<noteq> KEYWORD_ONLY then
        (if map_of arguments (pname param) = None
           then bound_kwargs True parameters arguments kwargs
         else bound_kwargs False parameters arguments kwargs)
      else
        (case map_of arguments (pname param) of
           None \<Rightarrow> bound_kwargs True parameters arguments kwargs
         | Some arg \<Rightarrow>
             if pkind param = VAR_KEYWORD
               then bound_kwargs True parameters arguments
                      (fold (\<lambda>(k, v). dict_set k v) (case arg of VDict d \<Rightarrow> d | _ \<Rightarrow> []) kwargs)
             else bound_kwargs True parameters arguments (dict_set (pname param) arg kwargs)))"

text \<open>
  The call \<open>fn(*args, **kwargs)\<close>: Python binds the arguments to the parameters as
  \<open>Signature.bind\<close> does, fills the defaults, and runs the body. (The interpreter and
  \<open>Signature.bind\<close> differ only on a named argument with the name of a positional-only
  parameter that no positional argument is given for; run_injected passes every
  bound positional parameter by position.)
\<close>

definition call :: "callable \<Rightarrow> pyval list \<Rightarrow> (string \<times> pyval) list \<Rightarrow> error + pyval" where
  "call fn args kwargs =
     (case bind (signature fn) args kwargs of
        Inl e \<Rightarrow> Inl e
      | Inr arguments \<Rightarrow> Inr (body fn (apply_defaults (signature fn) arguments)))"

text \<open>
  \<open>def run_injected(fn, *args, **kwargs)\<close>, called as \<open>run_injected(fn, *args, **kwargs)\<close>
  with the callable passed by position, as the test does. The header's own first
  parameter is named \<open>fn\<close>: a named argument \<open>fn=...\<close> is bound by the interpreter to
  that parameter, not to \<open>**kwargs\<close>, and the call raises TypeError (multiple values
  for argument 'fn') before the body runs. Otherwise the body filters the named
  arguments by the parameter names of the signature, binds, applies the defaults and
  calls.
\<close>

definition run_injected :: "callable \<Rightarrow> pyval list \<Rightarrow> (string \<times> pyval) list \<Rightarrow> error + pyval" where
  "run_injected fn args kwargs =
     (if map_of kwargs ''fn'' \<noteq> None then Inl TypeError
      else
        (let fn_arg_names = set (map pname (signature fn));
             out_kwargs = filter (\<lambda>(k, v). k \<in> fn_arg_names) kwargs
         in case bind (signature fn) args out_kwargs of
              Inl e \<Rightarrow> Inl e
            | Inr bound_arguments \<Rightarrow>
                (let bound = apply_defaults (signature fn) bound_arguments
                 in call fn (bound_args (signature fn) bound)
                      (bound_kwargs False (signature fn) bound []))))"

text \<open>
  The signatures \<open>inspect.signature\<close> gives for Python functions: the parameter names
  are distinct, the kinds come in the order positional-only, positional-or-keyword,
  \<open>*args\<close>, keyword-only, \<open>**kwargs\<close>, there is at most one \<open>*args\<close> and one \<open>**kwargs\<close>
  parameter, and these two have no default.
\<close>

fun kind_rank :: "param_kind \<Rightarrow> nat" where
  "kind_rank POSITIONAL_ONLY = 0"
| "kind_rank POSITIONAL_OR_KEYWORD = 1"
| "kind_rank VAR_POSITIONAL = 2"
| "kind_rank KEYWORD_ONLY = 3"
| "kind_rank VAR_KEYWORD = 4"

definition wf_signature :: "parameter list \<Rightarrow> bool" where
  "wf_signature sig \<longleftrightarrow>
     distinct (map pname sig) \<and>
     sorted (map (\<lambda>p. kind_rank (pkind p)) sig) \<and>
     length (filter (\<lambda>p. pkind p = VAR_POSITIONAL) sig) \<le> 1 \<and>
     length (filter (\<lambda>p. pkind p = VAR_KEYWORD) sig) \<le> 1 \<and>
     (\<forall>p\<in>set sig. pkind p = VAR_POSITIONAL \<or> pkind p = VAR_KEYWORD \<longrightarrow> pdefault p = None)"

section \<open>Conversion functions that only construct\<close>

text \<open>
  \<open>extends h h'\<close>: every object of \<open>h\<close> is in \<open>h'\<close>, unchanged; \<open>h'\<close> may hold more
  objects. A conversion function \<open>allocates_only\<close> when the store it leaves always
  extends the store it was given: it builds new objects and assigns to no existing
  one.
\<close>

definition extends :: "heap \<Rightarrow> heap \<Rightarrow> bool" where
  "extends h h' \<longleftrightarrow>
     prefix (mods h) (mods h') \<and> prefix (tensors h) (tensors h') \<and>
     prefix (storages h) (storages h')"

definition allocates_only :: "expansion \<Rightarrow> bool" where
  "allocates_only f \<longleftrightarrow> (\<forall>h m. extends h (snd (f h m)))"

text \<open>
  \<open>fresh_closed n h\<close>: the objects of \<open>h\<close> from reference \<open>n\<close> on have children
  among themselves only. A conversion function \<open>returns_fresh\<close> when the module it
  returns is one it has just built, and the modules it builds have only modules it
  builds as children.
\<close>

definition fresh_closed :: "nat \<Rightarrow> heap \<Rightarrow> bool" where
  "fresh_closed n h \<longleftrightarrow>
     (\<forall>r. n \<le> r \<and> r < length (mods h) \<longrightarrow>
        (\<forall>(name, c) \<in> set (modules (mods h ! r)). n \<le> c \<and> c < length (mods h)))"

definition returns_fresh :: "expansion \<Rightarrow> bool" where
  "returns_fresh f \<longleftrightarrow>
     (\<forall>h m. fresh_closed (length (mods h)) (snd (f h m)) \<and>
        (\<forall>r. fst (f h m) = Inr (Some r) \<longrightarrow>
           length (mods h) \<le> r \<and> r < length (mods (snd (f h m)))))"

text \<open>
  The path that \<open>named_modules\<close> gives to the node reached by a list of child names.
\<close>

definition path_of :: "string list \<Rightarrow> string" where
  "path_of segs = foldl child_prefix [] segs"

definition valid_name :: "string \<Rightarrow> bool" where
  "valid_name s \<longleftrightarrow> s \<noteq> [] \<and> CHR ''.'' \<notin> set s"

text \<open>
  \<open>reached h model (path, m)\<close>: the module \<open>m\<close> is reached from \<open>model\<close> by a list of
  valid child names, and \<open>path\<close> is the path of that list.
\<close>

definition reached :: "heap \<Rightarrow> ref \<Rightarrow> string \<times> ref \<Rightarrow> bool" where
  "reached h model e \<longleftrightarrow>
     (\<exists>segs. fst e = path_of segs \<and> walk h model segs = Inr (snd e) \<and>
             (\<forall>s\<in>set segs. valid_name s) \<and> snd e < length (mods h))"

text \<open>
  \<open>entry_ok\<close>: an entry of the mapping pairs the path of a traversed node whose kind
  is in the rule table with a module built since the pass began.
\<close>

definition entry_ok ::
  "(string \<rightharpoonup> expansion) \<Rightarrow> heap \<Rightarrow> (string \<times> ref) set \<Rightarrow> heap \<Rightarrow> string \<times> ref \<Rightarrow> bool" where
  "entry_ok tbl h0 S h e \<longleftrightarrow>
     length (mods h0) \<le> snd e \<and> snd e < length (mods h) \<and>
     (\<exists>m. (fst e, m) \<in> S \<and> tbl (type_name (mods h0 ! m)) \<noteq> None)"

text \<open>
  \<open>slots_ok\<close>, the invariant of the substitution loop: the new modules have only new
  modules as children; a module of the original store \<open>h0\<close> keeps its type and
  payload, and each entry of its child table is either as in \<open>h0\<close>, or holds a new
  module where \<open>h0\<close> had no child or a child whose kind is in the rule table.
\<close>

definition slots_ok :: "(string \<rightharpoonup> expansion) \<Rightarrow> heap \<Rightarrow> heap \<Rightarrow> bool" where
  "slots_ok tbl h0 h \<longleftrightarrow>
     length (mods h0) \<le> length (mods h) \<and> fresh_closed (length (mods h0)) h \<and>
     (\<forall>p<length (mods h0).
        type_name (mods h ! p) = type_name (mods h0 ! p) \<and>
        payload (mods h ! p) = payload (mods h0 ! p) \<and>
        (\<forall>name.
           map_of (modules (mods h ! p)) name = map_of (modules (mods h0 ! p)) name \<or>
           (\<exists>c'. map_of (modules (mods h ! p)) name = Some c' \<and>
                  length (mods h0) \<le> c' \<and> c' < length (mods h)) \<and>
           (\<forall>c. map_of (modules (mods h0 ! p)) name = Some c \<longrightarrow>
                  tbl (type_name (mods h0 ! c)) \<noteq> None)))"

section \<open>Example inputs\<close>

definition relu_heap :: heap where
  "relu_heap =
     \<lparr>mods = [\<lparr>type_name = ''ReLU'',
               payload = Plain \<lparr>cls = ''ReLU'', defines_len = False, constants = [''inplace''],
                                attrs = [(''inplace'', VBool False)]\<rparr>,
               modules = []\<rparr>],
      tensors = [], storages = []\<rparr>"

text \<open>
  A store holding \<open>nn.Conv1d(1, 1, 3, padding=1)\<close> with its weight of shape
  \<open>[1, 1, 3]\<close> and its bias of shape \<open>[1]\<close>.
\<close>

definition conv_example :: "nat conv" where
  "conv_example =
     \<lparr>in_channels = 1, out_channels = 1, kernel_size = 3, stride = 1, padding = 1,
      dilation = 1, groups = 1, padding_mode = ''zeros'', weight = 0, bias = Some 1\<rparr>"

definition conv_heap :: heap where
  "conv_heap =
     \<lparr>mods = [\<lparr>type_name = ''Conv1d'', payload = Conv1d conv_example, modules = []\<rparr>],
      tensors = [\<lparr>shape = [1, 1, 3], storage = 0\<rparr>, \<lparr>shape = [1], storage = 1\<rparr>],
      storages = [[F32 0x3F000000, F32 0x3E800000, F32 0xBF000000], [F32 0]]\<rparr>"

text \<open>Validation outcomes: two samples that agree, and a first sample that differs by 1.\<close>

definition good_probe :: "nat \<Rightarrow> error + fl" where
  "good_probe i = (if i = 0 then Inr (Fin (1 / 10 ^ 7)) else Inr (Fin 0))"

definition bad_probe :: "nat \<Rightarrow> error + fl" where
  "bad_probe i = Inr (Fin 1)"



text \<open>
  A hierarchy: the root \<open>Net\<close> has the children \<open>a\<close> and \<open>d\<close>; \<open>a\<close> has the child
  \<open>b\<close>; \<open>b\<close> has the children \<open>c\<close>, a 1-D convolution, and \<open>e\<close>. Object 6 is a
  2-D convolution outside the hierarchy.
\<close>

definition other :: "string \<Rightarrow> (string \<times> ref) list \<Rightarrow> module" where
  "other name children =
     \<lparr>type_name = name,
      payload = Plain \<lparr>cls = name, defines_len = False, constants = [], attrs = []\<rparr>,
      modules = children\<rparr>"

definition tree_heap :: heap where
  "tree_heap =
     \<lparr>mods = [other ''Net'' [(''a'', 1), (''d'', 4)],
              other ''Block'' [(''b'', 2)],
              other ''Branch'' [(''c'', 3), (''e'', 5)],
              \<lparr>type_name = ''Conv1d'', payload = Conv1d conv_example, modules = []\<rparr>,
              other ''ReLU'' [],
              other ''ReLU'' [],
              \<lparr>type_name = ''Conv2d'',
               payload = Conv2d \<lparr>in_channels = 1, out_channels = 1, kernel_size = (3, 1),
                 stride = (1, 1), padding = (1, 0), dilation = (1, 1), groups = 1,
                 padding_mode = ''zeros'', weight = 2, bias = Some 1\<rparr>,
               modules = []\<rparr>],
      tensors = [\<lparr>shape = [1, 1, 3], storage = 0\<rparr>, \<lparr>shape = [1], storage = 1\<rparr>,
                 \<lparr>shape = [1, 1, 3, 1], storage = 0\<rparr>],
      storages = [[F32 0x3F000000, F32 0x3E800000, F32 0xBF000000], [F32 0]]\<rparr>"

text \<open>Validation outcomes for a whole hierarchy: every convolution passes.\<close>

definition good_oracle :: "ref \<Rightarrow> nat \<Rightarrow> error + fl" where
  "good_oracle m = good_probe"

text \<open>
  The function of the test: \<open>def foo(x, y=1, *, z=None): return (x, y, z)\<close>, and
  \<open>def bar(x, **kwargs): return (x, kwargs)\<close>.
\<close>

definition local_var :: "(string \<times> pyval) list \<Rightarrow> string \<Rightarrow> pyval" where
  "local_var arguments k = (case map_of arguments k of Some v \<Rightarrow> v | None \<Rightarrow> VNone)"

definition foo :: callable where
  "foo =
     \<lparr>signature =
        [\<lparr>pname = ''x'', pkind = POSITIONAL_OR_KEYWORD, pdefault = None\<rparr>,
         \<lparr>pname = ''y'', pkind = POSITIONAL_OR_KEYWORD, pdefault = Some (VInt 1)\<rparr>,
         \<lparr>pname = ''z'', pkind = KEYWORD_ONLY, pdefault = Some VNone\<rparr>],
      body = (\<lambda>a. VTuple [local_var a ''x'', local_var a ''y'', local_var a ''z''])\<rparr>"

definition bar :: callable where
  "bar =
     \<lparr>signature =
        [\<lparr>pname = ''x'', pkind = POSITIONAL_OR_KEYWORD, pdefault = None\<rparr>,
         \<lparr>pname = ''kwargs'', pkind = VAR_KEYWORD, pdefault = None\<rparr>],
      body = (\<lambda>a. VTuple [local_var a ''x'', local_var a ''kwargs''])\<rparr>"

text \<open>Validation outcomes for a whole hierarchy: every convolution fails.\<close>

definition bad_oracle :: "ref \<Rightarrow> nat \<Rightarrow> error + fl" where
  "bad_oracle m = bad_probe"

text \<open>
  A conversion that wraps a module: \<open>lambda m: nn.Sequential(m)\<close>, a new container
  whose child \<open>0\<close> is the module itself. The rule table applies it to the kind
  \<open>Block\<close> and converts the 1-D convolutions. In the hierarchy the block \<open>a\<close> has the
  children \<open>0\<close> and \<open>c\<close>, and its child \<open>0\<close> has a 1-D convolution as child \<open>c\<close>.
\<close>

definition wrap :: expansion where
  "wrap h m =
     (let (out, h1) = alloc_module
        \<lparr>type_name = ''Sequential'',
         payload = Plain \<lparr>cls = ''Sequential'', defines_len = True, constants = [], attrs = []\<rparr>,
         modules = [(''0'', m)]\<rparr> h
      in (Inr (Some out), h1))"

definition wrap_table :: "string \<rightharpoonup> expansion" where
  "wrap_table = [''Block'' \<mapsto> wrap, ''Conv1d'' \<mapsto> expand_Conv1D good_probe]"

text \<open>
  A conversion function that assigns before it raises,
  \<open>def mut_raise(m): m.x = relu; raise ValueError\<close>, where \<open>relu\<close> is the module \<open>d\<close> of
  \<open>tree_heap\<close>, and a rule table that applies it to the nodes of kind \<open>Block\<close>.
\<close>

definition mut_raise :: expansion where
  "mut_raise h m = (Inl ValueError, set_child h m ''x'' 4)"

definition mut_table :: "string \<rightharpoonup> expansion" where
  "mut_table = [''Block'' \<mapsto> mut_raise]"

definition wrap_heap :: heap where
  "wrap_heap =
     \<lparr>mods = [other ''Net'' [(''a'', 1)],
              other ''Block'' [(''0'', 2), (''c'', 3)],
              other ''Inner'' [(''c'', 4)],
              other ''ReLU'' [],
              \<lparr>type_name = ''Conv1d'', payload = Conv1d conv_example, modules = []\<rparr>],
      tensors = [\<lparr>shape = [1, 1, 3], storage = 0\<rparr>, \<lparr>shape = [1], storage = 1\<rparr>],
      storages = [[F32 0x3F000000, F32 0x3E800000, F32 0xBF000000], [F32 0]]\<rparr>"

section \<open>Reading and writing fresh objects\<close>

lemma nth_app_len0: "(xs @ y # ys) ! length xs = y" by simp
lemma upd_app_len0: "(xs @ y # ys)[length xs := v] = xs @ v # ys" by simp


section \<open>Conversions of a node of another kind\<close>

text \<open>
  C7. A conversion function applied to a node that is not of its source kind returns
  None, raises nothing, and allocates nothing: the store is the one it was given. This
  holds for expand_Conv1D, for expand_BatchNorm1d and for every function made by
  simple_expand.
\<close>

theorem conversions_no_match:
  "(\<not> isinstance (mods h ! r) nn_Conv1d \<longrightarrow> expand_Conv1D probe h r = (Inr None, h)) \<and>
   (\<not> isinstance (mods h ! r) nn_BatchNorm1d \<longrightarrow> expand_BatchNorm1d h r = (Inr None, h)) \<and>
   (\<not> isinstance (mods h ! r) BaseT \<longrightarrow> simple_expand BaseT DestT h r = (Inr None, h))"
  by (cases "payload (mods h ! r)")
     (simp_all add: isinstance_def expand_Conv1D_def expand_BatchNorm1d_def simple_expand_def)

theorem conversions_no_match_witness:
  "\<not> isinstance (mods relu_heap ! 0) nn_Conv1d \<and>
   \<not> isinstance (mods relu_heap ! 0) nn_BatchNorm1d \<and>
   \<not> isinstance (mods relu_heap ! 0) (nn_other ''AvgPool1d'') \<and>
   expand_Conv1D (\<lambda>i. Inr (Fin 0)) relu_heap 0 = (Inr None, relu_heap) \<and>
   expand_BatchNorm1d relu_heap 0 = (Inr None, relu_heap) \<and>
   simple_expand (nn_other ''AvgPool1d'') (\<lambda>args. Inl TypeError) relu_heap 0 = (Inr None, relu_heap)"
  using conversions_no_match [of relu_heap 0 "\<lambda>i. Inr (Fin 0)" "nn_other ''AvgPool1d''"
                                  "\<lambda>args. Inl TypeError"]
  by (simp add: relu_heap_def isinstance_def)

section \<open>Conversion of a 1-D convolution\<close>

lemma validate_two:
  "validate probe [0 ..< 2] =
     (case probe 0 of Inl e \<Rightarrow> Some e
      | Inr a \<Rightarrow> if abs_gt a (1 / 10 ^ 6) then Some ValueError
                else (case probe 1 of Inl e \<Rightarrow> Some e
                      | Inr b \<Rightarrow> if abs_gt b (1 / 10 ^ 6) then Some ValueError else None))"
proof -
  have "[0 ..< 2] = [0, Suc 0]" by (simp add: upt_rec)
  then show ?thesis by (simp split: sum.splits)
qed

lemma validate_passes:
  assumes "\<forall>i<2. \<exists>x. probe i = Inr x \<and> \<not> abs_gt x (1 / 10 ^ 6)"
  shows "validate probe [0 ..< 2] = None"
proof -
  from assms have "\<exists>x. probe 0 = Inr x \<and> \<not> abs_gt x (1 / 10 ^ 6)" by simp
  then obtain a where a: "probe 0 = Inr a" "\<not> abs_gt a (1 / 10 ^ 6)" by blast
  from assms have "\<exists>x. probe 1 = Inr x \<and> \<not> abs_gt x (1 / 10 ^ 6)" by simp
  then obtain b where b: "probe 1 = Inr b" "\<not> abs_gt b (1 / 10 ^ 6)" by blast
  show ?thesis unfolding validate_two using a b by simp
qed

text \<open>
  C1, amended. For every node that is a 1-D convolution and on which the two
  validation samples raise nothing (no exception of the forward passes, and a
  difference of means that is not above 1e-6), expand_Conv1D returns a new 2-D
  convolution node: kernel size, stride and dilation are the original values paired
  with 1, padding is the original value paired with 0, channel counts, groups and
  padding mode are the original's, the bias is the same object as the original's
  bias, and the weight is a new tensor object over the storage of the original
  weight, with the original shape and one more dimension of size 1 at the end. No
  data is copied.
\<close>

theorem expand_Conv1D_result:
  assumes "payload (mods h ! r) = Conv1d c"
      and "\<forall>i<2. \<exists>x. probe i = Inr x \<and> \<not> abs_gt x (1 / 10 ^ 6)"
  shows "\<exists>h' c2. expand_Conv1D probe h r = (Inr (Some (length (mods h))), h') \<and>
           mods h' = mods h @ [\<lparr>type_name = ''Conv2d'', payload = Conv2d c2, modules = []\<rparr>] \<and>
           kernel_size c2 = (kernel_size c, 1) \<and> stride c2 = (stride c, 1) \<and>
           dilation c2 = (dilation c, 1) \<and> padding c2 = (padding c, 0) \<and>
           in_channels c2 = in_channels c \<and> out_channels c2 = out_channels c \<and>
           groups c2 = groups c \<and> padding_mode c2 = padding_mode c \<and>
           bias c2 = bias c \<and>
           shape (tensors h' ! weight c2) = shape (tensors h ! weight c) @ [1] \<and>
           storage (tensors h' ! weight c2) = storage (tensors h ! weight c) \<and>
           storages h' = storages h"
  using assms(1) validate_passes [OF assms(2)]
  by (simp add: expand_Conv1D_def unsqueeze_last_def Parameter_def alloc_tensor_def
        alloc_module_def nth_append)

theorem expand_Conv1D_result_witness:
  "payload (mods conv_heap ! 0) = Conv1d conv_example \<and>
   good_probe 0 = Inr (Fin (1 / 10 ^ 7)) \<and> good_probe 1 = Inr (Fin 0) \<and>
   fst (expand_Conv1D good_probe conv_heap 0) = Inr (Some 1)"
proof -
  have a: "payload (mods conv_heap ! 0) = Conv1d conv_example"
    by (simp add: conv_heap_def)
  have b: "\<forall>i<2. \<exists>x. good_probe i = Inr x \<and> \<not> abs_gt x (1 / 10 ^ 6)"
    by (simp add: good_probe_def)
  from expand_Conv1D_result [OF a b]
  have "fst (expand_Conv1D good_probe conv_heap 0) = Inr (Some 1)"
    by (auto simp: conv_heap_def)
  with a show ?thesis by (simp add: good_probe_def)
qed

text \<open>
  C1 as stated fails: on a 1-D convolution whose first validation sample differs by
  1, expand_Conv1D raises ValueError and returns no node.
\<close>

theorem expand_Conv1D_raises:
  "payload (mods conv_heap ! 0) = Conv1d conv_example \<and>
   fst (expand_Conv1D bad_probe conv_heap 0) = Inl ValueError"
  by (simp add: conv_heap_def expand_Conv1D_def validate_two bad_probe_def
        unsqueeze_last_def Parameter_def alloc_tensor_def alloc_module_def)

text \<open>
  The validation loop as far as it can be stated here: given the two differences of
  means as floats, expand_Conv1D raises ValueError exactly when one of them is above
  1e-6 in absolute value. How torch samples the inputs and computes the means is
  outside the embedding.
\<close>

lemma expand_Conv1D_gate:
  assumes "payload (mods h ! r) = Conv1d c" and "probe 0 = Inr a" and "probe 1 = Inr b"
  shows "fst (expand_Conv1D probe h r) = Inl ValueError
           \<longleftrightarrow> abs_gt a (1 / 10 ^ 6) \<or> abs_gt b (1 / 10 ^ 6)"
  using assms
  by (simp add: expand_Conv1D_def validate_two unsqueeze_last_def Parameter_def
        alloc_tensor_def alloc_module_def)

section \<open>Conversion of a 1-D batch normalisation\<close>




section \<open>Substitution by path\<close>

lemma map_of_dict_set: "map_of (dict_set k v kvs) = (map_of kvs)(k \<mapsto> v)"
  by (induction kvs) (auto simp: fun_eq_iff)

lemma walk_valid:
  "wf_heap h \<Longrightarrow> p < length (mods h) \<Longrightarrow> walk h p segs = Inr q \<Longrightarrow> q < length (mods h)"
proof (induction segs arbitrary: p)
  case Nil
  then show ?case by simp
next
  case (Cons s segs)
  from Cons.prems(3) obtain c where c: "map_of (modules (mods h ! p)) s = Some c"
    and w: "walk h c segs = Inr q"
    by (auto split: option.splits)
  from c have "(s, c) \<in> set (modules (mods h ! p))" by (rule map_of_SomeD)
  with Cons.prems(1,2) have "c < length (mods h)"
    unfolding wf_heap_def by (metis (mono_tags, lifting) case_prodD nth_mem)
  with Cons.IH Cons.prems(1) w show ?case by blast
qed

text \<open>
  C4. In a well-formed hierarchy, when the segments of a mapping entry's dotted path
  but the last resolve from the root to a node \<open>parent\<close>, processing the entry
  assigns the replacement to the child of \<open>parent\<close> named by the last segment and
  changes nothing else: the other children of \<open>parent\<close>, its type and payload, every
  other module object, every tensor and storage are as before; the rest of the mapping
  is processed on that store, and with no entry left the result is the model that was
  passed in.
\<close>

theorem swap_expanded_entry:
  assumes "wf_heap h" and "model < length (mods h)"
    and "walk h model (butlast (split_dot path)) = Inr parent"
  shows "\<exists>h'. (\<forall>rest. swap_expanded h model ((path, new_mod) # rest) = swap_expanded h' model rest) \<and>
           swap_expanded h model [(path, new_mod)] = (Inr model, h') \<and>
           map_of (modules (mods h' ! parent)) (last (split_dot path)) = Some new_mod \<and>
           (\<forall>name. name \<noteq> last (split_dot path) \<longrightarrow>
              map_of (modules (mods h' ! parent)) name = map_of (modules (mods h ! parent)) name) \<and>
           type_name (mods h' ! parent) = type_name (mods h ! parent) \<and>
           payload (mods h' ! parent) = payload (mods h ! parent) \<and>
           (\<forall>r. r \<noteq> parent \<longrightarrow> mods h' ! r = mods h ! r) \<and>
           length (mods h') = length (mods h) \<and>
           tensors h' = tensors h \<and> storages h' = storages h"
proof -
  from walk_valid [OF assms] have p: "parent < length (mods h)" .
  let ?h = "set_child h parent (last (split_dot path)) new_mod"
  show ?thesis
    using assms(3) p
    by (intro exI [of _ ?h]) (simp add: set_child_def map_of_dict_set)
qed


theorem swap_expanded_entry_witness:
  "wf_heap tree_heap \<and> walk tree_heap 0 (butlast (split_dot ''a.b.c'')) = Inr 2 \<and>
   fst (swap_expanded tree_heap 0 [(''a.b.c'', 6)]) = Inr 0 \<and>
   modules (mods (snd (swap_expanded tree_heap 0 [(''a.b.c'', 6)])) ! 2) = [(''c'', 6), (''e'', 5)]"
proof -
  have a: "wf_heap tree_heap"
    by (simp add: wf_heap_def tree_heap_def other_def)
  have b: "(0::nat) < length (mods tree_heap)"
    by (simp add: tree_heap_def)
  have c: "walk tree_heap 0 (butlast (split_dot ''a.b.c'')) = Inr 2"
    by (simp add: tree_heap_def other_def)
  from swap_expanded_entry [OF a b c, of 6] obtain h' where
    h': "swap_expanded tree_heap 0 [(''a.b.c'', 6)] = (Inr 0, h')"
    by blast
  then have "modules (mods (snd (swap_expanded tree_heap 0 [(''a.b.c'', 6)])) ! 2) = [(''c'', 6), (''e'', 5)]"
    by (auto simp: tree_heap_def other_def set_child_def)
  with a c h' show ?thesis by simp
qed

section \<open>The root in the mapping\<close>

lemma named_modules_conv_heap: "named_modules conv_heap 0 = [([], 0)]"
  by (simp add: named_modules_def conv_heap_def)

text \<open>
  C6: when the root is itself a 1-D convolution, the mapping built by auto_expand
  under the default table has the empty string as a key, the path of the root. The
  substitution then stores the replacement as a child of the root under the empty
  name, and the module returned is still the 1-D convolution.
\<close>

theorem auto_expand_root_key:
  "payload (mods conv_heap ! 0) = Conv1d conv_example \<and>
   fst (build_mapping (default_expansions good_oracle) (named_modules conv_heap 0) [] conv_heap)
     = Inr [([], 1)] \<and>
   fst (auto_expand good_oracle conv_heap 0 None) = Inr 0 \<and>
   payload (mods (snd (auto_expand good_oracle conv_heap 0 None)) ! 0) = Conv1d conv_example \<and>
   modules (mods (snd (auto_expand good_oracle conv_heap 0 None)) ! 0) = [([], 1)]"
proof -
  have v: "validate good_probe [0 ..< 2] = None"
    by (simp add: validate_two good_probe_def)
  obtain h1 where e: "expand_Conv1D good_probe conv_heap 0 = (Inr (Some 1), h1)"
    and h1: "h1 = conv_heap\<lparr>tensors := tensors conv_heap @
                 [\<lparr>shape = [1, 1, 3, 1], storage = 0\<rparr>, \<lparr>shape = [1, 1, 3, 1], storage = 0\<rparr>],
               mods := mods conv_heap @ [\<lparr>type_name = ''Conv2d'',
                 payload = Conv2d \<lparr>in_channels = 1, out_channels = 1, kernel_size = (3, 1),
                   stride = (1, 1), padding = (1, 0), dilation = (1, 1), groups = 1,
                   padding_mode = ''zeros'', weight = 3, bias = Some 1\<rparr>, modules = []\<rparr>]\<rparr>"
    by (simp add: expand_Conv1D_def v conv_heap_def conv_example_def unsqueeze_last_def
          Parameter_def alloc_tensor_def alloc_module_def)
  have m: "build_mapping (default_expansions good_oracle) [([], 0)] [] conv_heap
             = (Inr [([], 1)], h1)"
    using e by (simp add: default_expansions_def good_oracle_def h1 conv_heap_def truthy_def)
  have s: "swap_expanded h1 0 [([], 1)] = (Inr 0, set_child h1 0 [] 1)"
    by simp
  have a: "auto_expand good_oracle conv_heap 0 None = (Inr 0, set_child h1 0 [] 1)"
    unfolding auto_expand_def rule_table_def named_modules_conv_heap
    by (simp only: option.case m prod.case sum.case s)
  show ?thesis
    unfolding a named_modules_conv_heap m
    by (simp add: set_child_def h1 conv_heap_def)
qed

section \<open>Filtered invocation\<close>

lemma set_dict_set: "set (dict_set k v kvs) \<subseteq> insert (k, v) (set kvs)"
  by (induction kvs) (auto split: if_splits)

lemma keys_dict_set: "fst ` set (dict_set k v kvs) = insert k (fst ` set kvs)"
  by (simp add: dom_map_of_conv_image_fst [symmetric] map_of_dict_set)

lemma keys_fold_dict_set:
  "fst ` set (fold (\<lambda>(k, v). dict_set k v) d acc) \<subseteq> fst ` set acc \<union> fst ` set d"
proof (induction d arbitrary: acc)
  case Nil
  then show ?case by simp
next
  case (Cons kv d)
  obtain k v where kv: "kv = (k, v)" by (cases kv)
  have "fst ` set (dict_set k v acc) \<subseteq> insert k (fst ` set acc)"
    using set_dict_set [of k v acc] by force
  with Cons [of "dict_set k v acc"] show ?case
    unfolding kv by auto
qed

lemma bind_positional_other:
  assumes "\<forall>q\<in>set ps. pkind q \<noteq> VAR_KEYWORD \<longrightarrow> pname q \<noteq> n"
    and "bind_positional ps vs kw acc = Inr (acc', rest)"
  shows "map_of acc' n = map_of acc n \<and> set rest \<subseteq> set ps"
  using assms
proof (induction ps vs kw acc rule: bind_positional.induct)
  case (1 kwargs arguments)
  then show ?case by simp
next
  case (2 param parameters kwargs arguments)
  then show ?case by (auto split: if_splits)
next
  case (3 arg_val arg_vals kwargs arguments)
  then show ?case by simp
next
  case (4 param parameters arg_val arg_vals kwargs arguments)
  then show ?case
    by (auto simp: map_of_dict_set split: if_splits)
qed

lemma set_dict_pop: "set (dict_pop k kvs) \<subseteq> set kvs"
  by (auto simp: dict_pop_def)

lemma bind_keywords_other:
  assumes "\<forall>q\<in>set ps. pkind q \<noteq> VAR_KEYWORD \<longrightarrow> pname q \<noteq> n"
    and "bind_keywords ps kw acc kp = Inr (acc', kw', kp')"
  shows "map_of acc' n = map_of acc n \<and> set kw' \<subseteq> set kw \<and>
         (kp' = kp \<or> (\<exists>q\<in>set ps. kp' = Some q \<and> pkind q = VAR_KEYWORD))"
  using assms
proof (induction ps kw acc kp rule: bind_keywords.induct)
  case (1 kwargs arguments kwargs_param)
  then show ?case by simp
next
  case (2 param parameters kwargs arguments kwargs_param)
  show ?case
  proof (cases "pkind param = VAR_KEYWORD")
    case True
    with 2 show ?thesis by auto
  next
    case nk: False
    show ?thesis
    proof (cases "pkind param = VAR_POSITIONAL")
      case True
      with 2 nk show ?thesis by auto
    next
      case np: False
      show ?thesis
      proof (cases "map_of kwargs (pname param)")
        case None
        with 2 nk np show ?thesis by (auto split: if_splits)
      next
        case (Some v)
        with "2.prems" nk np have po: "pkind param \<noteq> POSITIONAL_ONLY"
          and r: "bind_keywords parameters (dict_pop (pname param) kwargs)
                    (dict_set (pname param) v arguments) kwargs_param = Inr (acc', kw', kp')"
          by (auto split: if_splits)
        from "2.IH"(4) [OF nk np Some po _ r] "2.prems"(1)
        have "map_of acc' n = map_of (dict_set (pname param) v arguments) n \<and>
              set kw' \<subseteq> set (dict_pop (pname param) kwargs) \<and>
              (kp' = kwargs_param \<or> (\<exists>q\<in>set parameters. kp' = Some q \<and> pkind q = VAR_KEYWORD))"
          by simp
        moreover from "2.prems"(1) nk have "pname param \<noteq> n" by simp
        ultimately show ?thesis
          using set_dict_pop [of "pname param" kwargs] by (auto simp: map_of_dict_set)
      qed
    qed
  qed
qed

lemma bind_var_keyword:
  assumes d: "distinct (map pname sig)" and p: "p \<in> set sig" "pkind p = VAR_KEYWORD"
    and b: "bind sig args kw = Inr ba"
  shows "map_of ba (pname p) = None \<or>
         (\<exists>d. map_of ba (pname p) = Some (VDict d) \<and> set d \<subseteq> set kw)"
proof -
  have other: "\<forall>q\<in>set sig. pkind q \<noteq> VAR_KEYWORD \<longrightarrow> pname q \<noteq> pname p"
    using d p by (metis distinct_map inj_onD)
  from b obtain a1 rest where
    bp: "bind_positional sig args kw [] = Inr (a1, rest)"
    by (auto simp: bind_def split: sum.splits)
  with b obtain a2 kw' kp where
    bk: "bind_keywords rest kw a1 None = Inr (a2, kw', kp)"
    by (auto simp: bind_def split: sum.splits)
  from bind_positional_other [OF other bp]
  have a1: "map_of a1 (pname p) = None" and rest: "set rest \<subseteq> set sig" by simp_all
  from other rest have "\<forall>q\<in>set rest. pkind q \<noteq> VAR_KEYWORD \<longrightarrow> pname q \<noteq> pname p"
    by blast
  from bind_keywords_other [OF this bk] a1
  have a2: "map_of a2 (pname p) = None" and kw': "set kw' \<subseteq> set kw"
    and kp: "kp = None \<or> (\<exists>q\<in>set rest. kp = Some q \<and> pkind q = VAR_KEYWORD)"
    by simp_all
  show ?thesis
  proof (cases "kw' = []")
    case True
    with b bp bk a2 show ?thesis by (simp add: bind_def)
  next
    case False
    with b bp bk obtain q where q: "kp = Some q" and ba: "ba = dict_set (pname q) (VDict kw') a2"
      by (auto simp: bind_def split: option.splits)
    show ?thesis
      using a2 kw' by (auto simp: ba map_of_dict_set)
  qed
qed

lemma map_of_apply_defaults:
  assumes "distinct (map pname sig)" and "p \<in> set sig"
  shows "map_of (apply_defaults sig a) (pname p) =
     (case map_of a (pname p) of
        Some v \<Rightarrow> Some v
      | None \<Rightarrow>
          (case pdefault p of
             Some d \<Rightarrow> Some d
           | None \<Rightarrow> if pkind p = VAR_POSITIONAL then Some (VTuple [])
                      else if pkind p = VAR_KEYWORD then Some (VDict []) else None))"
  using assms
proof (induction sig)
  case Nil
  then show ?case by simp
next
  case (Cons q sig)
  show ?case
  proof (cases "q = p")
    case True
    have "map_of (apply_defaults sig a) (pname p) = None"
    proof -
      have "pname p \<notin> fst ` set (apply_defaults sig a)"
      proof -
        have "fst ` set (apply_defaults sig a) \<subseteq> pname ` set sig"
          by (induction sig) (auto split: option.splits if_splits)
        with Cons.prems True show ?thesis by auto
      qed
      then show ?thesis by (simp add: map_of_eq_None_iff)
    qed
    with True show ?thesis by (simp split: option.splits)
  next
    case False
    with Cons.prems have "p \<in> set sig" "pname q \<noteq> pname p" "distinct (map pname sig)"
      by auto
    with Cons.IH show ?thesis by (simp split: option.splits)
  qed
qed


lemma keys_bound_kwargs:
  assumes "\<forall>q\<in>set ps. \<forall>d. pkind q = VAR_KEYWORD \<longrightarrow> map_of a (pname q) = Some (VDict d)
             \<longrightarrow> fst ` set d \<subseteq> N"
    and "pname ` set ps \<subseteq> N" and "fst ` set acc \<subseteq> N"
  shows "fst ` set (bound_kwargs st ps a acc) \<subseteq> N"
  using assms
proof (induction st ps a acc rule: bound_kwargs.induct)
  case (1 kwargs_started arguments kwargs)
  then show ?case by simp
next
  case (2 kwargs_started param parameters arguments kwargs)
  have d: "\<And>v. fst ` set (dict_set (pname param) v kwargs) \<subseteq> N"
    using "2.prems" by (simp add: keys_dict_set)
  have f: "\<And>arg. pkind param = VAR_KEYWORD \<Longrightarrow> map_of arguments (pname param) = Some arg \<Longrightarrow>
     fst ` set (fold (\<lambda>(k, v). dict_set k v) (case arg of VDict d \<Rightarrow> d | _ \<Rightarrow> []) kwargs) \<subseteq> N"
  proof -
    fix arg
    assume k: "pkind param = VAR_KEYWORD" and m: "map_of arguments (pname param) = Some arg"
    have "fst ` set (case arg of VDict d \<Rightarrow> d | _ \<Rightarrow> []) \<subseteq> N"
      using "2.prems"(1) k m by (cases arg) auto
    with keys_fold_dict_set [of "case arg of VDict d \<Rightarrow> d | _ \<Rightarrow> []" kwargs] "2.prems"(3)
    show "fst ` set (fold (\<lambda>(k, v). dict_set k v) (case arg of VDict d \<Rightarrow> d | _ \<Rightarrow> []) kwargs) \<subseteq> N"
      by blast
  qed
  from "2.prems" have rest: "\<forall>q\<in>set parameters. \<forall>d. pkind q = VAR_KEYWORD \<longrightarrow>
      map_of arguments (pname q) = Some (VDict d) \<longrightarrow> fst ` set d \<subseteq> N"
    "pname ` set parameters \<subseteq> N"
    by auto
  show ?case
    using "2.IH" rest "2.prems"(3) d f
    by (simp split: option.splits)
qed


lemma var_keyword_bound:
  assumes d: "distinct (map pname sig)"
    and nd: "\<forall>q\<in>set sig. pkind q = VAR_KEYWORD \<longrightarrow> pdefault q = None"
    and p: "p \<in> set sig" "pkind p = VAR_KEYWORD"
    and b: "bind sig args kw = Inr ba"
  shows "\<exists>d. map_of (apply_defaults sig ba) (pname p) = Some (VDict d) \<and> set d \<subseteq> set kw"
proof -
  from nd p have "pdefault p = None" by blast
  with map_of_apply_defaults [OF d p(1), of ba] p(2)
  have m: "map_of (apply_defaults sig ba) (pname p) =
           (case map_of ba (pname p) of Some v \<Rightarrow> Some v | None \<Rightarrow> Some (VDict []))"
    by (simp split: option.splits)
  from bind_var_keyword [OF d p b] show ?thesis
    unfolding m by auto
qed

text \<open>
  C10. For a callable whose signature has a \<open>**kwargs\<close> parameter, whenever
  run_injected returns the callable's result, the dictionary that parameter holds
  when the body runs has only declared parameter names as keys: a named argument
  whose key is not a declared name is dropped, not forwarded. (A dictionary of
  parameters has distinct names, and a variadic parameter has no default.)
\<close>

theorem run_injected_var_keyword:
  assumes d: "distinct (map pname (signature fn))"
    and nd: "\<forall>q\<in>set (signature fn). pkind q = VAR_KEYWORD \<longrightarrow> pdefault q = None"
    and p: "p \<in> set (signature fn)" "pkind p = VAR_KEYWORD"
    and r: "run_injected fn args kwargs = Inr r"
  shows "\<exists>a d. r = body fn a \<and> map_of a (pname p) = Some (VDict d) \<and>
           fst ` set d \<subseteq> set (map pname (signature fn))"
proof -
  let ?sig = "signature fn"
  let ?N = "set (map pname ?sig)"
  let ?fk = "filter (\<lambda>(k, v). k \<in> ?N) kwargs"
  from r have nf: "map_of kwargs ''fn'' = None"
    by (auto simp: run_injected_def split: if_splits)
  with r obtain ba where b1: "bind ?sig args ?fk = Inr ba"
    by (auto simp: run_injected_def Let_def split: sum.splits)
  let ?b = "apply_defaults ?sig ba"
  let ?kw = "bound_kwargs False ?sig ?b []"
  from r b1 nf have c: "call fn (bound_args ?sig ?b) ?kw = Inr r"
    by (simp add: run_injected_def Let_def)
  then obtain ba2 where b2: "bind ?sig (bound_args ?sig ?b) ?kw = Inr ba2"
    and r2: "r = body fn (apply_defaults ?sig ba2)"
    by (auto simp: call_def split: sum.splits)
  have fk: "fst ` set ?fk \<subseteq> ?N" by auto
  have "\<forall>q\<in>set ?sig. \<forall>dq. pkind q = VAR_KEYWORD \<longrightarrow>
          map_of ?b (pname q) = Some (VDict dq) \<longrightarrow> fst ` set dq \<subseteq> ?N"
  proof (intro ballI allI impI)
    fix q dq
    assume q: "q \<in> set ?sig" "pkind q = VAR_KEYWORD" and m: "map_of ?b (pname q) = Some (VDict dq)"
    from var_keyword_bound [OF d nd q b1] m have "set dq \<subseteq> set ?fk" by auto
    with fk show "fst ` set dq \<subseteq> ?N" by blast
  qed
  then have kw: "fst ` set ?kw \<subseteq> ?N"
    by (rule keys_bound_kwargs) simp_all
  from var_keyword_bound [OF d nd p b2] obtain d2 where
    d2: "map_of (apply_defaults ?sig ba2) (pname p) = Some (VDict d2)" "set d2 \<subseteq> set ?kw"
    by blast
  from d2(2) kw have "fst ` set d2 \<subseteq> ?N" by blast
  with r2 d2(1) show ?thesis by blast
qed

theorem run_injected_var_keyword_witness:
  "run_injected bar [VInt 5] [(''a'', VInt 4), (''kwargs'', VInt 7)]
     = Inr (VTuple [VInt 5, VDict [(''kwargs'', VInt 7)]]) \<and>
   call bar [VInt 5] [(''a'', VInt 4), (''kwargs'', VInt 7)]
     = Inr (VTuple [VInt 5, VDict [(''a'', VInt 4), (''kwargs'', VInt 7)]]) \<and>
   (\<exists>a d. VTuple [VInt 5, VDict [(''kwargs'', VInt 7)]] = body bar a \<and>
      map_of a ''kwargs'' = Some (VDict d) \<and> fst ` set d \<subseteq> {''x'', ''kwargs''})"
proof -
  have r: "run_injected bar [VInt 5] [(''a'', VInt 4), (''kwargs'', VInt 7)]
     = Inr (VTuple [VInt 5, VDict [(''kwargs'', VInt 7)]])"
    by (simp add: run_injected_def call_def bind_def bar_def dict_pop_def local_var_def)
  have c: "call bar [VInt 5] [(''a'', VInt 4), (''kwargs'', VInt 7)]
     = Inr (VTuple [VInt 5, VDict [(''a'', VInt 4), (''kwargs'', VInt 7)]])"
    by (simp add: call_def bind_def bar_def dict_pop_def local_var_def)
  have d: "distinct (map pname (signature bar))" by (simp add: bar_def)
  have nd: "\<forall>q\<in>set (signature bar). pkind q = VAR_KEYWORD \<longrightarrow> pdefault q = None"
    by (simp add: bar_def)
  have p: "\<lparr>pname = ''kwargs'', pkind = VAR_KEYWORD, pdefault = None\<rparr> \<in> set (signature bar)"
    by (simp add: bar_def)
  from run_injected_var_keyword [OF d nd p _ r]
  have "\<exists>a d. VTuple [VInt 5, VDict [(''kwargs'', VInt 7)]] = body bar a \<and>
      map_of a ''kwargs'' = Some (VDict d) \<and> fst ` set d \<subseteq> {''x'', ''kwargs''}"
    by (simp add: bar_def)
  with r c show ?thesis by simp
qed

subsection \<open>Binding the bound arguments again\<close>

text \<open>
  run_injected binds twice: \<open>signature.bind\<close> on the filtered arguments, and the call
  \<open>fn(*bound_args.args, **bound_args.kwargs)\<close>. For a signature of a Python function
  the second binding gives the bound arguments of the first back, so that the body
  runs on them.
\<close>

lemma sorted_split:
  fixes f :: "'a \<Rightarrow> nat"
  assumes "sorted (map f xs)"
  shows "xs = filter (\<lambda>x. f x < k) xs @ filter (\<lambda>x. \<not> f x < k) xs"
  using assms
proof (induction xs)
  case Nil
  then show ?case by simp
next
  case (Cons x xs)
  show ?case
  proof (cases "f x < k")
    case True
    with Cons show ?thesis by simp
  next
    case False
    with Cons.prems have "\<forall>y\<in>set xs. \<not> f y < k" by auto
    then have "filter (\<lambda>x. f x < k) xs = []" "filter (\<lambda>x. \<not> f x < k) xs = xs"
      by (simp_all add: filter_empty_conv filter_id_conv)
    with False show ?thesis by simp
  qed
qed

lemma sorted_split_ex:
  fixes f :: "'a \<Rightarrow> nat"
  assumes "sorted (map f xs)"
  shows "\<exists>a b. xs = a @ b \<and> (\<forall>x\<in>set a. f x < k) \<and> (\<forall>x\<in>set b. \<not> f x < k) \<and> sorted (map f b)"
proof (intro exI conjI)
  show "xs = filter (\<lambda>x. f x < k) xs @ filter (\<lambda>x. \<not> f x < k) xs"
    using sorted_split [OF assms] .
  show "sorted (map f (filter (\<lambda>x. \<not> f x < k) xs))"
    using assms by (rule sorted_filter)
qed simp_all

lemma wf_signature_split:
  assumes "wf_signature sig"
  obtains pos vps kwo vks where "sig = pos @ vps @ kwo @ vks"
    and "\<forall>p\<in>set pos. pkind p = POSITIONAL_ONLY \<or> pkind p = POSITIONAL_OR_KEYWORD"
    and "\<forall>p\<in>set vps. pkind p = VAR_POSITIONAL" and "length vps \<le> 1"
    and "\<forall>p\<in>set kwo. pkind p = KEYWORD_ONLY"
    and "\<forall>p\<in>set vks. pkind p = VAR_KEYWORD" and "length vks \<le> 1"
proof -
  let ?r = "\<lambda>p. kind_rank (pkind p)"
  from assms have s: "sorted (map ?r sig)" by (simp add: wf_signature_def)
  from sorted_split_ex [OF s, of 2] obtain pos r1 where
    1: "sig = pos @ r1" "\<forall>p\<in>set pos. ?r p < 2" "\<forall>p\<in>set r1. \<not> ?r p < 2" "sorted (map ?r r1)"
    by blast
  from sorted_split_ex [OF 1(4), of 3] obtain vps r2 where
    2: "r1 = vps @ r2" "\<forall>p\<in>set vps. ?r p < 3" "\<forall>p\<in>set r2. \<not> ?r p < 3" "sorted (map ?r r2)"
    by blast
  from sorted_split_ex [OF 2(4), of 4] obtain kwo vks where
    3: "r2 = kwo @ vks" "\<forall>p\<in>set kwo. ?r p < 4" "\<forall>p\<in>set vks. \<not> ?r p < 4"
    by blast
  have e: "sig = pos @ vps @ kwo @ vks" by (simp add: 1 2 3)
  have kpos: "\<forall>p\<in>set pos. pkind p = POSITIONAL_ONLY \<or> pkind p = POSITIONAL_OR_KEYWORD"
  proof
    fix p assume "p \<in> set pos"
    with 1(2) have "?r p < 2" by blast
    then show "pkind p = POSITIONAL_ONLY \<or> pkind p = POSITIONAL_OR_KEYWORD"
      by (cases "pkind p") simp_all
  qed
  have kvps: "\<forall>p\<in>set vps. pkind p = VAR_POSITIONAL"
  proof
    fix p assume p: "p \<in> set vps"
    with 2(2) have "?r p < 3" by blast
    moreover from p 1(3) 2(1) have "\<not> ?r p < 2" by simp
    ultimately show "pkind p = VAR_POSITIONAL" by (cases "pkind p") simp_all
  qed
  have kkwo: "\<forall>p\<in>set kwo. pkind p = KEYWORD_ONLY"
  proof
    fix p assume p: "p \<in> set kwo"
    with 3(2) have "?r p < 4" by blast
    moreover from p 2(3) 3(1) have "\<not> ?r p < 3" by simp
    ultimately show "pkind p = KEYWORD_ONLY" by (cases "pkind p") simp_all
  qed
  have kvks: "\<forall>p\<in>set vks. pkind p = VAR_KEYWORD"
  proof
    fix p assume p: "p \<in> set vks"
    with 3(3) have "\<not> ?r p < 4" by blast
    then show "pkind p = VAR_KEYWORD" by (cases "pkind p") simp_all
  qed
  have "filter (\<lambda>p. pkind p = VAR_POSITIONAL) sig = vps"
    unfolding e using kpos kvps kkwo kvks
    by (auto simp: filter_empty_conv filter_id_conv)
  with assms have lvps: "length vps \<le> 1" by (simp add: wf_signature_def)
  have "filter (\<lambda>p. pkind p = VAR_KEYWORD) sig = vks"
    unfolding e using kpos kvps kkwo kvks
    by (auto simp: filter_empty_conv filter_id_conv)
  with assms have lvks: "length vks \<le> 1" by (simp add: wf_signature_def)
  from e kpos kvps lvps kkwo kvks lvks show thesis by (rule that)
qed

lemma dict_set_fresh: "k \<notin> fst ` set kvs \<Longrightarrow> dict_set k v kvs = kvs @ [(k, v)]"
  by (induction kvs) auto

lemma fold_dict_set_fresh:
  "distinct (map fst d) \<Longrightarrow> fst ` set d \<inter> fst ` set acc = {} \<Longrightarrow>
   fold (\<lambda>(k, v). dict_set k v) d acc = acc @ d"
proof (induction d arbitrary: acc)
  case Nil
  then show ?case by simp
next
  case (Cons kv d)
  obtain k v where kv: "kv = (k, v)" by (cases kv)
  from Cons.prems have k: "k \<notin> fst ` set acc" by (auto simp: kv)
  from Cons.prems have "distinct (map fst d)" "fst ` set d \<inter> fst ` set (acc @ [(k, v)]) = {}"
    by (auto simp: kv)
  from Cons.IH [OF this] show ?case
    by (simp add: kv dict_set_fresh [OF k])
qed

lemma dict_pop_fresh: "k \<notin> fst ` set kvs \<Longrightarrow> dict_pop k kvs = kvs"
  by (force simp: dict_pop_def filter_id_conv)

lemma map_of_entries:
  "map_of (map (\<lambda>p. (pname p, f (pname p))) ps) n =
     (if n \<in> pname ` set ps then Some (f n) else None)"
  by (induction ps) auto

lemma keys_entries: "fst ` (\<lambda>p. (pname p, f (pname p))) ` set ps = pname ` set ps"
  by (simp add: image_image)


lemma bound_args_pos:
  assumes "\<forall>p\<in>set pos. pkind p = POSITIONAL_ONLY \<or> pkind p = POSITIONAL_OR_KEYWORD"
    and "\<forall>p\<in>set pos. map_of b (pname p) = Some (f (pname p))"
  shows "bound_args (pos @ rest) b = map (\<lambda>p. f (pname p)) pos @ bound_args rest b"
  using assms by (induction pos) auto

lemma bound_args_keywords:
  assumes "\<forall>p\<in>set ps. pkind p = KEYWORD_ONLY \<or> pkind p = VAR_KEYWORD"
  shows "bound_args ps b = []"
  using assms by (cases ps) auto

lemma bound_kwargs_pos:
  assumes "\<forall>p\<in>set pos. pkind p \<noteq> VAR_KEYWORD \<and> pkind p \<noteq> KEYWORD_ONLY"
    and "\<forall>p\<in>set pos. map_of b (pname p) \<noteq> None"
  shows "bound_kwargs False (pos @ rest) b acc = bound_kwargs False rest b acc"
  using assms by (induction pos) auto

lemma bound_kwargs_kwo:
  assumes "\<forall>p\<in>set kwo. pkind p = KEYWORD_ONLY"
    and "\<forall>p\<in>set kwo. map_of b (pname p) = Some (f (pname p))"
    and "distinct (map pname kwo)" and "pname ` set kwo \<inter> fst ` set acc = {}"
  shows "bound_kwargs st (kwo @ rest) b acc =
           bound_kwargs (st \<or> kwo \<noteq> []) rest b (acc @ map (\<lambda>p. (pname p, f (pname p))) kwo)"
  using assms
proof (induction kwo arbitrary: st acc)
  case Nil
  then show ?case by simp
next
  case (Cons q kwo)
  from Cons.prems have q: "pkind q = KEYWORD_ONLY" "map_of b (pname q) = Some (f (pname q))"
    "pname q \<notin> fst ` set acc" by auto
  from Cons.prems have r: "\<forall>p\<in>set kwo. pkind p = KEYWORD_ONLY"
    "\<forall>p\<in>set kwo. map_of b (pname p) = Some (f (pname p))" "distinct (map pname kwo)"
    "pname ` set kwo \<inter> fst ` set (acc @ [(pname q, f (pname q))]) = {}"
    by auto
  from Cons.IH [OF r, of True] show ?case
    by (simp add: q dict_set_fresh)
qed

lemma bind_positional_pos:
  assumes "\<forall>p\<in>set pos. pkind p = POSITIONAL_ONLY \<or> pkind p = POSITIONAL_OR_KEYWORD"
    and "\<forall>p\<in>set pos. pkind p = POSITIONAL_OR_KEYWORD \<longrightarrow> map_of kw (pname p) = None"
    and "distinct (map pname pos)" and "pname ` set pos \<inter> fst ` set acc = {}"
  shows "bind_positional (pos @ rest) (map (\<lambda>p. f (pname p)) pos @ extra) kw acc =
           bind_positional rest extra kw (acc @ map (\<lambda>p. (pname p, f (pname p))) pos)"
  using assms
proof (induction pos arbitrary: acc)
  case Nil
  then show ?case by simp
next
  case (Cons q pos)
  from Cons.prems have q: "pkind q = POSITIONAL_ONLY \<or> pkind q = POSITIONAL_OR_KEYWORD"
    "pkind q = POSITIONAL_OR_KEYWORD \<longrightarrow> map_of kw (pname q) = None"
    "pname q \<notin> fst ` set acc" by auto
  from Cons.prems have r:
    "\<forall>p\<in>set pos. pkind p = POSITIONAL_ONLY \<or> pkind p = POSITIONAL_OR_KEYWORD"
    "\<forall>p\<in>set pos. pkind p = POSITIONAL_OR_KEYWORD \<longrightarrow> map_of kw (pname p) = None"
    "distinct (map pname pos)"
    "pname ` set pos \<inter> fst ` set (acc @ [(pname q, f (pname q))]) = {}"
    by auto
  from Cons.IH [OF r] q show ?case
    by (auto simp: dict_set_fresh)
qed

lemma bind_keywords_kwo:
  assumes "\<forall>p\<in>set kwo. pkind p = KEYWORD_ONLY"
    and "distinct (map pname kwo)" and "pname ` set kwo \<inter> fst ` set d = {}"
    and "pname ` set kwo \<inter> fst ` set acc = {}"
  shows "bind_keywords (kwo @ rest) (map (\<lambda>p. (pname p, f (pname p))) kwo @ d) acc kp =
           bind_keywords rest d (acc @ map (\<lambda>p. (pname p, f (pname p))) kwo) kp"
  using assms
proof (induction kwo arbitrary: acc)
  case Nil
  then show ?case by simp
next
  case (Cons q kwo)
  let ?e = "\<lambda>p. (pname p, f (pname p))"
  from Cons.prems have q: "pkind q = KEYWORD_ONLY" "pname q \<notin> fst ` set acc"
    "pname q \<notin> fst ` set (map ?e kwo @ d)"
    by (auto simp: keys_entries)
  from Cons.prems have r: "\<forall>p\<in>set kwo. pkind p = KEYWORD_ONLY" "distinct (map pname kwo)"
    "pname ` set kwo \<inter> fst ` set d = {}"
    "pname ` set kwo \<inter> fst ` set (acc @ [?e q]) = {}"
    by auto
  have pop: "dict_pop (pname q) (map ?e (q # kwo) @ d) = map ?e kwo @ d"
    using dict_pop_fresh [OF q(3)] by (simp add: dict_pop_def)
  have "bind_keywords ((q # kwo) @ rest) (map ?e (q # kwo) @ d) acc kp =
        bind_keywords (kwo @ rest) (dict_pop (pname q) (map ?e (q # kwo) @ d))
          (dict_set (pname q) (f (pname q)) acc) kp"
    by (simp add: q(1))
  also have "\<dots> = bind_keywords (kwo @ rest) (map ?e kwo @ d) (acc @ [?e q]) kp"
    by (simp only: pop dict_set_fresh [OF q(2)])
  also have "\<dots> = bind_keywords rest d ((acc @ [?e q]) @ map ?e kwo) kp"
    by (rule Cons.IH [OF r])
  finally show ?case by simp
qed

lemma apply_defaults_entries:
  assumes "\<forall>p\<in>set ps. map_of a (pname p) = Some (f (pname p)) \<or>
     (map_of a (pname p) = None \<and> pdefault p = Some (f (pname p))) \<or>
     (map_of a (pname p) = None \<and> pdefault p = None \<and>
      (pkind p = VAR_POSITIONAL \<and> f (pname p) = VTuple [] \<or>
       pkind p = VAR_KEYWORD \<and> f (pname p) = VDict []))"
  shows "apply_defaults ps a = map (\<lambda>p. (pname p, f (pname p))) ps"
  using assms by (induction ps) auto


lemma bind_positional_stop:
  assumes "\<forall>p\<in>set ps. pkind p = KEYWORD_ONLY \<or> pkind p = VAR_KEYWORD"
    and "\<forall>p\<in>set ps. pkind p = KEYWORD_ONLY \<longrightarrow> map_of kw (pname p) \<noteq> None"
  shows "bind_positional ps [] kw acc = Inr (acc, ps)"
  using assms by (cases ps) auto

lemma bind_positional_var:
  assumes "pkind vp = VAR_POSITIONAL"
  shows "bind_positional (vp # ps) vs kw acc =
           Inr (if vs = [] then acc else dict_set (pname vp) (VTuple vs) acc, ps)"
  using assms by (cases vs) auto

lemma disjoint_names: "g ` A \<inter> g ` B = {} \<Longrightarrow> x \<in> A \<Longrightarrow> y \<in> B \<Longrightarrow> g x \<noteq> g y"
  by blast

lemma disjoint_notin: "g ` A \<inter> g ` B = {} \<Longrightarrow> y \<in> B \<Longrightarrow> g y \<notin> g ` A"
  by blast

lemma disjoint_notin2: "g ` A \<inter> g ` B = {} \<Longrightarrow> x \<in> A \<Longrightarrow> g x \<notin> g ` B"
  by blast

lemma map_of_append_left: "map_of xs n = Some v \<Longrightarrow> map_of (xs @ ys) n = Some v"
  by (simp add: map_add_def)

lemma map_of_notin: "n \<notin> fst ` set xs \<Longrightarrow> map_of xs n = None"
  by (simp add: map_of_eq_None_iff)

lemma map_of_append_right: "n \<notin> fst ` set xs \<Longrightarrow> map_of (xs @ ys) n = map_of ys n"
  by (simp add: map_add_def map_of_notin)

lemma map_of_entry_in: "p \<in> set ps \<Longrightarrow> map_of (map (\<lambda>p. (pname p, f (pname p))) ps) (pname p) = Some (f (pname p))"
  by (simp add: map_of_entries)

lemma keys_entries_set: "fst ` set (map (\<lambda>p. (pname p, f (pname p))) ps) = pname ` set ps"
  by (simp add: image_image)

lemma rebind:
  fixes f :: "string \<Rightarrow> pyval"
  assumes sig: "sig = pos @ vps @ kwo @ vks"
    and kpos: "\<forall>p\<in>set pos. pkind p = POSITIONAL_ONLY \<or> pkind p = POSITIONAL_OR_KEYWORD"
    and kvps: "\<forall>p\<in>set vps. pkind p = VAR_POSITIONAL" and lvps: "length vps \<le> 1"
    and kkwo: "\<forall>p\<in>set kwo. pkind p = KEYWORD_ONLY"
    and kvks: "\<forall>p\<in>set vks. pkind p = VAR_KEYWORD" and lvks: "length vks \<le> 1"
    and dn: "distinct (map pname sig)"
    and nd: "\<forall>p\<in>set sig. pkind p = VAR_POSITIONAL \<or> pkind p = VAR_KEYWORD \<longrightarrow> pdefault p = None"
    and tv: "\<forall>p\<in>set vps. f (pname p) = VTuple vs" and te: "vps = [] \<longrightarrow> vs = []"
    and dv: "\<forall>p\<in>set vks. f (pname p) = VDict dd" and de: "vks = [] \<longrightarrow> dd = []"
    and dd: "distinct (map fst dd)"
      "\<forall>q\<in>set pos \<union> set kwo. pkind q \<noteq> POSITIONAL_ONLY \<longrightarrow> pname q \<notin> fst ` set dd"
    and b: "b = map (\<lambda>p. (pname p, f (pname p))) sig"
  shows "\<exists>ba2. bind sig (bound_args sig b) (bound_kwargs False sig b []) = Inr ba2 \<and>
           apply_defaults sig ba2 = b"
proof -
  let ?e = "\<lambda>p. (pname p, f (pname p))"
  define kwl where "kwl = map ?e kwo @ dd"
  define tup where "tup = (if vs = [] then [] else map (\<lambda>p. (pname p, VTuple vs)) vps)"
  define a1 where "a1 = map ?e pos @ tup"
  define a2 where "a2 = a1 @ map ?e kwo"
  define kp where "kp = (case vks of [] \<Rightarrow> None | vk # r \<Rightarrow> Some vk)"
  define dk where "dk = (if dd = [] then [] else map (\<lambda>p. (pname p, VDict dd)) vks)"
  define ba2 where "ba2 = a2 @ dk"
  have mb: "\<forall>p\<in>set sig. map_of b (pname p) = Some (f (pname p))"
    by (simp add: b map_of_entries)
  from dn have dpos: "distinct (map pname pos)" and dkwo: "distinct (map pname kwo)"
    and D: "pname ` set pos \<inter> pname ` set vps = {}" "pname ` set pos \<inter> pname ` set kwo = {}"
      "pname ` set pos \<inter> pname ` set vks = {}" "pname ` set vps \<inter> pname ` set kwo = {}"
      "pname ` set vps \<inter> pname ` set vks = {}" "pname ` set kwo \<inter> pname ` set vks = {}"
    unfolding sig by (simp_all add: Int_Un_distrib Int_Un_distrib2)
  have ddk: "pname ` set kwo \<inter> fst ` set dd = {}"
  proof -
    have "pname p \<notin> fst ` set dd" if "p \<in> set kwo" for p
    proof -
      from that kkwo have "pkind p \<noteq> POSITIONAL_ONLY" by auto
      with dd(2) that show ?thesis by blast
    qed
    then show ?thesis by blast
  qed
  have ktup: "fst ` set tup \<subseteq> pname ` set vps"
    by (auto simp: tup_def)
  have kdk: "fst ` set dk \<subseteq> pname ` set vks"
    by (auto simp: dk_def)
  have args: "bound_args sig b = map (\<lambda>p. f (pname p)) pos @ vs"
  proof -
    have "bound_args (pos @ vps @ kwo @ vks) b =
            map (\<lambda>p. f (pname p)) pos @ bound_args (vps @ kwo @ vks) b"
      by (rule bound_args_pos) (use kpos mb sig in auto)
    moreover have t: "bound_args (kwo @ vks) b = []"
      by (rule bound_args_keywords) (use kkwo kvks in auto)
    have "bound_args (vps @ kwo @ vks) b = vs"
    proof (cases vps)
      case Nil
      with te t show ?thesis by simp
    next
      case (Cons vp r)
      with lvps have r: "r = []" by simp
      from Cons kvps tv mb sig have "pkind vp = VAR_POSITIONAL"
        "map_of b (pname vp) = Some (VTuple vs)" by auto
      with t show ?thesis by (simp add: Cons r)
    qed
    ultimately show ?thesis by (simp add: sig)
  qed
  have kw: "bound_kwargs False sig b [] = kwl"
  proof -
    have "bound_kwargs False ((pos @ vps) @ kwo @ vks) b [] = bound_kwargs False (kwo @ vks) b []"
      by (rule bound_kwargs_pos) (use kpos kvps mb sig in auto)
    also have "\<dots> = bound_kwargs (False \<or> kwo \<noteq> []) vks b ([] @ map ?e kwo)"
      by (rule bound_kwargs_kwo) (use kkwo mb sig dkwo in auto)
    also have "\<dots> = kwl"
    proof (cases vks)
      case Nil
      with de show ?thesis by (simp add: kwl_def)
    next
      case (Cons vk r)
      with lvks have r: "r = []" by simp
      from Cons kvks dv mb sig have k: "pkind vk = VAR_KEYWORD"
        "map_of b (pname vk) = Some (VDict dd)" by auto
      have "fst ` set dd \<inter> fst ` set (map ?e kwo) = {}"
        using ddk by (simp add: keys_entries Int_commute)
      from fold_dict_set_fresh [OF dd(1) this] k show ?thesis by (simp add: Cons r kwl_def)
    qed
    finally show ?thesis by (simp add: sig)
  qed
  have pk: "\<forall>p\<in>set pos. pkind p = POSITIONAL_OR_KEYWORD \<longrightarrow> map_of kwl (pname p) = None"
  proof (intro ballI impI)
    fix p assume p: "p \<in> set pos" "pkind p = POSITIONAL_OR_KEYWORD"
    from p(1) have "pname p \<notin> pname ` set kwo" by (rule disjoint_notin2 [OF D(2)])
    moreover from p dd(2) have "pname p \<notin> fst ` set dd" by auto
    ultimately show "map_of kwl (pname p) = None"
      by (simp add: kwl_def map_of_eq_None_iff keys_entries image_Un)
  qed
  have s1: "bind_positional (pos @ vps @ kwo @ vks) (map (\<lambda>p. f (pname p)) pos @ vs) kwl [] =
          bind_positional (vps @ kwo @ vks) vs kwl ([] @ map ?e pos)"
  proof (rule bind_positional_pos)
    show "\<forall>p\<in>set pos. pkind p = POSITIONAL_ONLY \<or> pkind p = POSITIONAL_OR_KEYWORD" by fact
    show "\<forall>p\<in>set pos. pkind p = POSITIONAL_OR_KEYWORD \<longrightarrow> map_of kwl (pname p) = None" by fact
    show "distinct (map pname pos)" by fact
    show "pname ` set pos \<inter> fst ` set [] = {}" by simp
  qed
  have s2: "bind_positional (vps @ kwo @ vks) vs kwl (map ?e pos) = Inr (a1, kwo @ vks)"
  proof (cases vps)
    case Nil
    have "bind_positional (kwo @ vks) [] kwl (map ?e pos) = Inr (map ?e pos, kwo @ vks)"
    proof (rule bind_positional_stop)
      show "\<forall>p\<in>set (kwo @ vks). pkind p = KEYWORD_ONLY \<or> pkind p = VAR_KEYWORD"
        using kkwo kvks by auto
      show "\<forall>p\<in>set (kwo @ vks). pkind p = KEYWORD_ONLY \<longrightarrow> map_of kwl (pname p) \<noteq> None"
      proof (intro ballI impI)
        fix p assume "p \<in> set (kwo @ vks)" "pkind p = KEYWORD_ONLY"
        with kvks have "p \<in> set kwo" by auto
        then have "map_of (map ?e kwo) (pname p) = Some (f (pname p))"
          by (rule map_of_entry_in)
        then show "map_of kwl (pname p) \<noteq> None" by (simp add: kwl_def map_add_def)
      qed
    qed
    with Nil te show ?thesis by (simp add: a1_def tup_def)
  next
    case (Cons vp r)
    with lvps have r: "r = []" by simp
    from Cons kvps have k: "pkind vp = VAR_POSITIONAL" by simp
    from Cons have "vp \<in> set vps" by simp
    then have "pname vp \<notin> pname ` set pos" by (rule disjoint_notin [OF D(1)])
    then have "pname vp \<notin> fst ` set (map ?e pos)"
      by (simp add: keys_entries)
    from dict_set_fresh [OF this]
    have "bind_positional (vp # kwo @ vks) vs kwl (map ?e pos) =
            Inr (if vs = [] then map ?e pos else map ?e pos @ [(pname vp, VTuple vs)], kwo @ vks)"
      by (simp only: bind_positional_var [OF k])
    then show ?thesis by (simp add: Cons r a1_def tup_def)
  qed
  have p1: "bind_positional sig (map (\<lambda>p. f (pname p)) pos @ vs) kwl [] = Inr (a1, kwo @ vks)"
    using s1 s2 by (simp add: sig)
  have ka1: "fst ` set a1 \<subseteq> pname ` set pos \<union> pname ` set vps"
    using ktup by (auto simp: a1_def)
  have p2: "bind_keywords (kwo @ vks) kwl a1 None = Inr (a2, dd, kp)"
  proof -
    have "bind_keywords (kwo @ vks) (map ?e kwo @ dd) a1 None =
            bind_keywords vks dd (a1 @ map ?e kwo) None"
    proof (rule bind_keywords_kwo)
      show "\<forall>p\<in>set kwo. pkind p = KEYWORD_ONLY" by fact
      show "distinct (map pname kwo)" by (rule dkwo)
      show "pname ` set kwo \<inter> fst ` set dd = {}" by (rule ddk)
      show "pname ` set kwo \<inter> fst ` set a1 = {}"
        using ka1 D(2) D(4) by blast
    qed
    also have "\<dots> = Inr (a2, dd, kp)"
    proof (cases vks)
      case Nil
      then show ?thesis by (simp add: a2_def kp_def)
    next
      case (Cons vk r)
      with lvks have r: "r = []" by simp
      from Cons kvks have "pkind vk = VAR_KEYWORD" by simp
      then show ?thesis by (simp add: Cons r a2_def kp_def)
    qed
    finally show ?thesis by (simp add: kwl_def)
  qed
  have ka2: "fst ` set a2 \<subseteq> pname ` set pos \<union> pname ` set vps \<union> pname ` set kwo"
    using ka1 by (auto simp: a2_def)
  have bd: "bind sig (map (\<lambda>p. f (pname p)) pos @ vs) kwl = Inr ba2"
  proof (cases "dd = []")
    case True
    then show ?thesis by (simp add: bind_def p1 p2 ba2_def dk_def)
  next
    case False
    with de obtain vk r where vks: "vks = vk # r" by (cases vks) auto
    with lvks have r: "r = []" by simp
    have "pname vk \<notin> pname ` set pos" "pname vk \<notin> pname ` set vps" "pname vk \<notin> pname ` set kwo"
      using D(3) D(5) D(6) vks by auto
    with ka2 have "pname vk \<notin> fst ` set a2" by blast
    then have ds: "dict_set (pname vk) (VDict dd) a2 = a2 @ [(pname vk, VDict dd)]"
      by (rule dict_set_fresh)
    have kpv: "kp = Some vk" by (simp add: kp_def vks)
    from False have "ba2 = a2 @ [(pname vk, VDict dd)]"
      by (simp add: ba2_def dk_def vks r)
    with False show ?thesis
      by (simp add: bind_def p1 p2 kpv ds)
  qed
  have "apply_defaults sig ba2 = map ?e sig"
  proof (rule apply_defaults_entries, rule ballI)
    fix p assume p: "p \<in> set sig"
    let ?P = "map_of ba2 (pname p) = Some (f (pname p)) \<or>
       (map_of ba2 (pname p) = None \<and> pdefault p = Some (f (pname p))) \<or>
       (map_of ba2 (pname p) = None \<and> pdefault p = None \<and>
        (pkind p = VAR_POSITIONAL \<and> f (pname p) = VTuple [] \<or>
         pkind p = VAR_KEYWORD \<and> f (pname p) = VDict []))"
    from p sig consider "p \<in> set pos" | "p \<in> set vps" | "p \<in> set kwo" | "p \<in> set vks"
      by auto
    then show ?P
    proof cases
      case 1
      then have "map_of (map ?e pos) (pname p) = Some (f (pname p))" by (rule map_of_entry_in)
      then have "map_of ba2 (pname p) = Some (f (pname p))"
        unfolding ba2_def a2_def a1_def
        by (intro map_of_append_left)
      then show ?thesis by simp
    next
      case 2
      from 2 have n1: "pname p \<notin> fst ` set (map ?e pos)"
        unfolding keys_entries_set by (rule disjoint_notin [OF D(1)])
      from 2 have n3: "pname p \<notin> fst ` set (map ?e kwo)"
        unfolding keys_entries_set by (rule disjoint_notin2 [OF D(4)])
      from 2 have "pname p \<notin> pname ` set vks" by (rule disjoint_notin2 [OF D(5)])
      with kdk have n4: "pname p \<notin> fst ` set dk" by blast
      from 2 lvps have vps: "vps = [p]" by (cases vps) auto
      from 2 tv have fv: "f (pname p) = VTuple vs" by blast
      from 2 kvps have kk: "pkind p = VAR_POSITIONAL" by blast
      with nd p have dflt: "pdefault p = None" by blast
      show ?thesis
      proof (cases "vs = []")
        case True
        then have "tup = []" by (simp add: tup_def)
        then have "fst ` set ba2 \<subseteq> fst ` set (map ?e pos) \<union> fst ` set (map ?e kwo) \<union> fst ` set dk"
          by (auto simp: ba2_def a2_def a1_def)
        with n1 n3 n4 have "pname p \<notin> fst ` set ba2" by blast
        then have "map_of ba2 (pname p) = None" by (rule map_of_notin)
        with True fv kk dflt show ?thesis by simp
      next
        case False
        then have "map_of tup (pname p) = Some (f (pname p))"
          by (simp add: tup_def vps fv)
        then have "map_of ((tup @ map ?e kwo) @ dk) (pname p) = Some (f (pname p))"
          by (intro map_of_append_left)
        then have "map_of (map ?e pos @ (tup @ map ?e kwo) @ dk) (pname p) = Some (f (pname p))"
          by (simp only: map_of_append_right [OF n1])
        then show ?thesis by (simp add: ba2_def a2_def a1_def)
      qed
    next
      case 3
      from 3 have n1: "pname p \<notin> fst ` set (map ?e pos)"
        unfolding keys_entries_set by (rule disjoint_notin [OF D(2)])
      from 3 have "pname p \<notin> pname ` set vps" by (rule disjoint_notin [OF D(4)])
      with ktup have n2: "pname p \<notin> fst ` set tup" by blast
      from 3 have "map_of (map ?e kwo) (pname p) = Some (f (pname p))" by (rule map_of_entry_in)
      then have "map_of (map ?e kwo @ dk) (pname p) = Some (f (pname p))"
        by (rule map_of_append_left)
      then have "map_of (tup @ map ?e kwo @ dk) (pname p) = Some (f (pname p))"
        by (simp only: map_of_append_right [OF n2])
      then have "map_of (map ?e pos @ tup @ map ?e kwo @ dk) (pname p) = Some (f (pname p))"
        by (simp only: map_of_append_right [OF n1])
      then show ?thesis by (simp add: ba2_def a2_def a1_def)
    next
      case 4
      from 4 have n1: "pname p \<notin> fst ` set (map ?e pos)"
        unfolding keys_entries_set by (rule disjoint_notin [OF D(3)])
      from 4 have "pname p \<notin> pname ` set vps" by (rule disjoint_notin [OF D(5)])
      with ktup have n2: "pname p \<notin> fst ` set tup" by blast
      from 4 have n3: "pname p \<notin> fst ` set (map ?e kwo)"
        unfolding keys_entries_set by (rule disjoint_notin [OF D(6)])
      from 4 lvks have vks: "vks = [p]" by (cases vks) auto
      from 4 dv have fv: "f (pname p) = VDict dd" by blast
      from 4 kvks have kk: "pkind p = VAR_KEYWORD" by blast
      with nd p have dflt: "pdefault p = None" by blast
      have e: "map_of ba2 (pname p) = map_of dk (pname p)"
        unfolding ba2_def a2_def a1_def append_assoc
        by (simp only: map_of_append_right [OF n1] map_of_append_right [OF n2]
            map_of_append_right [OF n3])
      show ?thesis
      proof (cases "dd = []")
        case True
        then have "map_of dk (pname p) = None" by (simp add: dk_def)
        with e True fv kk dflt show ?thesis by simp
      next
        case False
        then have "map_of dk (pname p) = Some (f (pname p))" by (simp add: dk_def vks fv)
        with e show ?thesis by simp
      qed
    qed
  qed
  with bd args kw b show ?thesis by simp
qed


lemma bind_positional_consumed:
  assumes "bind_positional ps vs kw acc = Inr (acc', rest)"
  shows "\<exists>consumed. ps = consumed @ rest \<and> fst ` set acc \<subseteq> fst ` set acc' \<and>
           (\<forall>q\<in>set consumed. pkind q = VAR_POSITIONAL \<or>
              (pname q \<in> fst ` set acc' \<and> pkind q \<noteq> KEYWORD_ONLY \<and> pkind q \<noteq> VAR_KEYWORD \<and>
               (pkind q = POSITIONAL_OR_KEYWORD \<longrightarrow> map_of kw (pname q) = None)))"
  using assms
proof (induction ps vs kw acc rule: bind_positional.induct)
  case (1 kwargs arguments)
  then show ?case by simp
next
  case (2 param parameters kwargs arguments)
  show ?case
  proof (cases "pkind param = VAR_POSITIONAL")
    case True
    with "2.prems" have "acc' = arguments" "rest = parameters" by simp_all
    with True show ?thesis by (intro exI [of _ "[param]"]) simp
  next
    case False
    with "2.prems" have "acc' = arguments" "rest = param # parameters"
      by (auto split: if_splits)
    then show ?thesis by (intro exI [of _ "[]"]) simp
  qed
next
  case (3 arg_val arg_vals kwargs arguments)
  then show ?case by simp
next
  case (4 param parameters arg_val arg_vals kwargs arguments)
  from "4.prems" have k: "pkind param \<noteq> VAR_KEYWORD" "pkind param \<noteq> KEYWORD_ONLY"
    by (auto split: if_splits)
  show ?case
  proof (cases "pkind param = VAR_POSITIONAL")
    case True
    with "4.prems" k have "acc' = dict_set (pname param) (VTuple (arg_val # arg_vals)) arguments"
      "rest = parameters" by simp_all
    with True show ?thesis
      by (intro exI [of _ "[param]"]) (auto simp: keys_dict_set)
  next
    case False
    with "4.prems" k have c: "\<not> (map_of kwargs (pname param) \<noteq> None \<and> pkind param \<noteq> POSITIONAL_ONLY)"
      and r: "bind_positional parameters arg_vals kwargs (dict_set (pname param) arg_val arguments)
                = Inr (acc', rest)"
      by (auto split: if_splits)
    from "4.IH" [OF _ False c r] k obtain consumed where
      i: "parameters = consumed @ rest"
        "fst ` set (dict_set (pname param) arg_val arguments) \<subseteq> fst ` set acc'"
        "\<forall>q\<in>set consumed. pkind q = VAR_POSITIONAL \<or>
              (pname q \<in> fst ` set acc' \<and> pkind q \<noteq> KEYWORD_ONLY \<and> pkind q \<noteq> VAR_KEYWORD \<and>
               (pkind q = POSITIONAL_OR_KEYWORD \<longrightarrow> map_of kwargs (pname q) = None))"
      by auto
    from i(2) have sub: "fst ` set arguments \<subseteq> fst ` set acc'" "pname param \<in> fst ` set acc'"
      by (auto simp: keys_dict_set)
    from c have "pkind param = POSITIONAL_OR_KEYWORD \<longrightarrow> map_of kwargs (pname param) = None"
      by auto
    with i sub k show ?thesis
      by (intro exI [of _ "param # consumed"]) simp
  qed
qed

lemma bind_positional_tuple:
  assumes "\<forall>q\<in>set ps. pkind q \<noteq> VAR_POSITIONAL \<longrightarrow> pname q \<noteq> n"
    and "bind_positional ps vs kw acc = Inr (acc', rest)"
  shows "map_of acc' n = map_of acc n \<or> (\<exists>ts. map_of acc' n = Some (VTuple ts))"
  using assms
proof (induction ps vs kw acc rule: bind_positional.induct)
  case (1 kwargs arguments)
  then show ?case by simp
next
  case (2 param parameters kwargs arguments)
  then show ?case by (auto split: if_splits)
next
  case (3 arg_val arg_vals kwargs arguments)
  then show ?case by simp
next
  case (4 param parameters arg_val arg_vals kwargs arguments)
  from "4.prems" have k: "pkind param \<noteq> VAR_KEYWORD" "pkind param \<noteq> KEYWORD_ONLY"
    by (auto split: if_splits)
  show ?case
  proof (cases "pkind param = VAR_POSITIONAL")
    case True
    with "4.prems" k have "acc' = dict_set (pname param) (VTuple (arg_val # arg_vals)) arguments"
      by simp
    then show ?thesis by (auto simp: map_of_dict_set)
  next
    case False
    with "4.prems" k have c: "\<not> (map_of kwargs (pname param) \<noteq> None \<and> pkind param \<noteq> POSITIONAL_ONLY)"
      and r: "bind_positional parameters arg_vals kwargs (dict_set (pname param) arg_val arguments)
                = Inr (acc', rest)"
      by (auto split: if_splits)
    from "4.prems"(1) have o: "\<forall>q\<in>set parameters. pkind q \<noteq> VAR_POSITIONAL \<longrightarrow> pname q \<noteq> n"
      and ne: "pname param \<noteq> n" using False by auto
    from "4.IH" [OF _ False c o r] k
    have "map_of acc' n = map_of (dict_set (pname param) arg_val arguments) n \<or>
          (\<exists>ts. map_of acc' n = Some (VTuple ts))" by auto
    with ne show ?thesis by (auto simp: map_of_dict_set)
  qed
qed

lemma dict_pop_keys: "fst ` set (dict_pop k kvs) = fst ` set kvs - {k}"
  by (force simp: dict_pop_def)

lemma dict_pop_distinct: "distinct (map fst kvs) \<Longrightarrow> distinct (map fst (dict_pop k kvs))"
  by (simp add: dict_pop_def distinct_map_filter)

lemma bind_keywords_left:
  assumes "bind_keywords ps kw acc kp = Inr (acc', kw', kp')"
  shows "fst ` set acc \<subseteq> fst ` set acc' \<and> fst ` set kw' \<subseteq> fst ` set kw \<and>
         (distinct (map fst kw) \<longrightarrow> distinct (map fst kw')) \<and>
         (\<forall>q\<in>set ps. pkind q \<noteq> VAR_POSITIONAL \<and> pkind q \<noteq> VAR_KEYWORD \<longrightarrow>
            pname q \<notin> fst ` set kw' \<and> (pname q \<in> fst ` set acc' \<or> pdefault q \<noteq> None))"
  using assms
proof (induction ps kw acc kp rule: bind_keywords.induct)
  case (1 kwargs arguments kwargs_param)
  then show ?case by simp
next
  case (2 param parameters kwargs arguments kwargs_param)
  show ?case
  proof (cases "pkind param = VAR_KEYWORD")
    case True
    with 2 show ?thesis by auto
  next
    case nk: False
    show ?thesis
    proof (cases "pkind param = VAR_POSITIONAL")
      case True
      with 2 nk show ?thesis by auto
    next
      case np: False
      show ?thesis
      proof (cases "map_of kwargs (pname param)")
        case None
        with "2.prems" nk np have df: "pdefault param \<noteq> None"
          and r: "bind_keywords parameters kwargs arguments kwargs_param = Inr (acc', kw', kp')"
          by (auto split: if_splits)
        note ih = "2.IH"(3) [OF nk np None df r]
        from None have "pname param \<notin> fst ` set kwargs" by (simp add: map_of_eq_None_iff)
        with ih have "pname param \<notin> fst ` set kw'" by blast
        with ih df show ?thesis by simp
      next
        case (Some v)
        with "2.prems" nk np have po: "pkind param \<noteq> POSITIONAL_ONLY"
          and r: "bind_keywords parameters (dict_pop (pname param) kwargs)
                    (dict_set (pname param) v arguments) kwargs_param = Inr (acc', kw', kp')"
          by (auto split: if_splits)
        note ih = "2.IH"(4) [OF nk np Some po r]
        from ih have a: "fst ` set arguments \<subseteq> fst ` set acc'" "pname param \<in> fst ` set acc'"
          by (auto simp: keys_dict_set)
        from ih have k: "fst ` set kw' \<subseteq> fst ` set kwargs" "pname param \<notin> fst ` set kw'"
          by (auto simp: dict_pop_keys)
        from ih have d: "distinct (map fst kwargs) \<longrightarrow> distinct (map fst kw')"
          using dict_pop_distinct [of kwargs "pname param"] by blast
        from ih a k d show ?thesis by simp
      qed
    qed
  qed
qed

lemma bind_keywords_value:
  assumes "\<forall>q\<in>set ps. pkind q \<noteq> VAR_POSITIONAL \<and> pkind q \<noteq> VAR_KEYWORD \<longrightarrow> pname q \<noteq> n"
    and "bind_keywords ps kw acc kp = Inr (acc', kw', kp')"
  shows "map_of acc' n = map_of acc n \<and>
         (kp' = kp \<or> (\<exists>q\<in>set ps. kp' = Some q \<and> pkind q = VAR_KEYWORD))"
  using assms
proof (induction ps kw acc kp rule: bind_keywords.induct)
  case (1 kwargs arguments kwargs_param)
  then show ?case by simp
next
  case (2 param parameters kwargs arguments kwargs_param)
  from "2.prems"(1) have o:
    "\<forall>q\<in>set parameters. pkind q \<noteq> VAR_POSITIONAL \<and> pkind q \<noteq> VAR_KEYWORD \<longrightarrow> pname q \<noteq> n"
    by simp
  show ?case
  proof (cases "pkind param = VAR_KEYWORD")
    case True
    with "2.prems" have r: "bind_keywords parameters kwargs arguments (Some param) = Inr (acc', kw', kp')"
      by simp
    from "2.IH"(1) [OF True o r] True show ?thesis by auto
  next
    case nk: False
    show ?thesis
    proof (cases "pkind param = VAR_POSITIONAL")
      case True
      with "2.prems" nk have r: "bind_keywords parameters kwargs arguments kwargs_param = Inr (acc', kw', kp')"
        by simp
      from "2.IH"(2) [OF nk True o r] show ?thesis by auto
    next
      case np: False
      show ?thesis
      proof (cases "map_of kwargs (pname param)")
        case None
        with "2.prems" nk np have df: "pdefault param \<noteq> None"
          and r: "bind_keywords parameters kwargs arguments kwargs_param = Inr (acc', kw', kp')"
          by (auto split: if_splits)
        from "2.IH"(3) [OF nk np None df o r] show ?thesis by auto
      next
        case (Some v)
        with "2.prems" nk np have po: "pkind param \<noteq> POSITIONAL_ONLY"
          and r: "bind_keywords parameters (dict_pop (pname param) kwargs)
                    (dict_set (pname param) v arguments) kwargs_param = Inr (acc', kw', kp')"
          by (auto split: if_splits)
        from "2.prems"(1) nk np have "pname param \<noteq> n" by simp
        with "2.IH"(4) [OF nk np Some po o r] show ?thesis
          by (auto simp: map_of_dict_set)
      qed
    qed
  qed
qed


lemma bind_complete:
  assumes b: "bind sig args kw = Inr ba" and p: "p \<in> set sig"
  shows "map_of ba (pname p) \<noteq> None \<or> pdefault p \<noteq> None \<or>
         pkind p = VAR_POSITIONAL \<or> pkind p = VAR_KEYWORD"
proof -
  from b obtain a1 rest where
    bp: "bind_positional sig args kw [] = Inr (a1, rest)"
    by (auto simp: bind_def split: sum.splits)
  with b obtain a2 kw' kp where
    bk: "bind_keywords rest kw a1 None = Inr (a2, kw', kp)"
    by (auto simp: bind_def split: sum.splits)
  from bind_positional_consumed [OF bp] obtain consumed where
    c: "sig = consumed @ rest"
      "\<forall>q\<in>set consumed. pkind q = VAR_POSITIONAL \<or>
              (pname q \<in> fst ` set a1 \<and> pkind q \<noteq> KEYWORD_ONLY \<and> pkind q \<noteq> VAR_KEYWORD \<and>
               (pkind q = POSITIONAL_OR_KEYWORD \<longrightarrow> map_of kw (pname q) = None))"
    by blast
  note l = bind_keywords_left [OF bk]
  note l1 = l [THEN conjunct1]
  note l4 = l [THEN conjunct2, THEN conjunct2, THEN conjunct2, rule_format]
  have ks: "fst ` set a2 \<subseteq> fst ` set ba"
  proof (cases "kw' = []")
    case True
    with b bp bk have "ba = a2" by (simp add: bind_def)
    then show ?thesis by simp
  next
    case False
    with b bp bk obtain q where "kp = Some q" and "ba = dict_set (pname q) (VDict kw') a2"
      by (auto simp: bind_def split: option.splits)
    then show ?thesis by (simp add: keys_dict_set subset_insertI)
  qed
  from p c(1) consider "p \<in> set consumed" | "p \<in> set rest" by auto
  then have "pname p \<in> fst ` set a2 \<or> pdefault p \<noteq> None \<or>
         pkind p = VAR_POSITIONAL \<or> pkind p = VAR_KEYWORD"
  proof cases
    case 1
    with c(2) have "pkind p = VAR_POSITIONAL \<or> pname p \<in> fst ` set a1" by blast
    with l1 show ?thesis by blast
  next
    case 2
    show ?thesis
    proof (cases "pkind p \<noteq> VAR_POSITIONAL \<and> pkind p \<noteq> VAR_KEYWORD")
      case True
      from l4 [OF 2 True] show ?thesis by blast
    next
      case False
      then show ?thesis by blast
    qed
  qed
  with ks have "pname p \<in> fst ` set ba \<or> pdefault p \<noteq> None \<or>
         pkind p = VAR_POSITIONAL \<or> pkind p = VAR_KEYWORD" by blast
  then show ?thesis by (simp add: map_of_eq_None_iff)
qed

lemma distinct_names_other:
  assumes "distinct (map pname sig)" "p \<in> set sig" "q \<in> set sig" "pkind q \<noteq> pkind p"
  shows "pname q \<noteq> pname p"
proof
  assume "pname q = pname p"
  with assms(1-3) have "q = p" by (simp add: distinct_map inj_on_def)
  with assms(4) show False by simp
qed

lemma bind_var_positional:
  assumes d: "distinct (map pname sig)" and p: "p \<in> set sig" "pkind p = VAR_POSITIONAL"
    and b: "bind sig args kw = Inr ba"
  shows "map_of ba (pname p) = None \<or> (\<exists>ts. map_of ba (pname p) = Some (VTuple ts))"
proof -
  have other: "\<forall>q\<in>set sig. pkind q \<noteq> VAR_POSITIONAL \<longrightarrow> pname q \<noteq> pname p"
    using distinct_names_other [OF d p(1)] p(2) by simp
  from b obtain a1 rest where
    bp: "bind_positional sig args kw [] = Inr (a1, rest)"
    by (auto simp: bind_def split: sum.splits)
  with b obtain a2 kw' kp where
    bk: "bind_keywords rest kw a1 None = Inr (a2, kw', kp)"
    by (auto simp: bind_def split: sum.splits)
  from bind_positional_consumed [OF bp] have rest: "set rest \<subseteq> set sig" by auto
  from bind_positional_tuple [OF other bp]
  have a1: "map_of a1 (pname p) = None \<or> (\<exists>ts. map_of a1 (pname p) = Some (VTuple ts))"
    by simp
  from other rest
  have "\<forall>q\<in>set rest. pkind q \<noteq> VAR_POSITIONAL \<and> pkind q \<noteq> VAR_KEYWORD \<longrightarrow> pname q \<noteq> pname p"
    by blast
  from bind_keywords_value [OF this bk]
  have a2: "map_of a2 (pname p) = map_of a1 (pname p)"
    and kp: "kp = None \<or> (\<exists>q\<in>set rest. kp = Some q \<and> pkind q = VAR_KEYWORD)"
    by simp_all
  show ?thesis
  proof (cases "kw' = []")
    case True
    with b bp bk have "ba = a2" by (simp add: bind_def)
    with a1 a2 show ?thesis by simp
  next
    case False
    with b bp bk obtain q where q: "kp = Some q" and ba: "ba = dict_set (pname q) (VDict kw') a2"
      by (auto simp: bind_def split: option.splits)
    from q kp rest have "q \<in> set sig" "pkind q = VAR_KEYWORD" by auto
    with other p(2) have "pname q \<noteq> pname p" by auto
    with a1 a2 show ?thesis by (simp add: ba map_of_dict_set)
  qed
qed

lemma bind_var_keyword_dict:
  assumes d: "distinct (map pname sig)" and p: "p \<in> set sig" "pkind p = VAR_KEYWORD"
    and b: "bind sig args kw = Inr ba" and dk: "distinct (map fst kw)"
  shows "map_of ba (pname p) = None \<or>
         (\<exists>dd. map_of ba (pname p) = Some (VDict dd) \<and> distinct (map fst dd) \<and>
            (\<forall>q\<in>set sig. pkind q = POSITIONAL_OR_KEYWORD \<or> pkind q = KEYWORD_ONLY \<longrightarrow>
               pname q \<notin> fst ` set dd))"
proof -
  have other: "\<forall>q\<in>set sig. pkind q \<noteq> VAR_KEYWORD \<longrightarrow> pname q \<noteq> pname p"
    using distinct_names_other [OF d p(1)] p(2) by simp
  from b obtain a1 rest where
    bp: "bind_positional sig args kw [] = Inr (a1, rest)"
    by (auto simp: bind_def split: sum.splits)
  with b obtain a2 kw' kp where
    bk: "bind_keywords rest kw a1 None = Inr (a2, kw', kp)"
    by (auto simp: bind_def split: sum.splits)
  from bind_positional_other [OF other bp]
  have a1: "map_of a1 (pname p) = None" and rest: "set rest \<subseteq> set sig" by simp_all
  from other rest have "\<forall>q\<in>set rest. pkind q \<noteq> VAR_KEYWORD \<longrightarrow> pname q \<noteq> pname p"
    by blast
  from bind_keywords_other [OF this bk] a1
  have a2: "map_of a2 (pname p) = None" by simp
  from bind_positional_consumed [OF bp] obtain consumed where
    c: "sig = consumed @ rest"
      "\<forall>q\<in>set consumed. pkind q = VAR_POSITIONAL \<or>
              (pname q \<in> fst ` set a1 \<and> pkind q \<noteq> KEYWORD_ONLY \<and> pkind q \<noteq> VAR_KEYWORD \<and>
               (pkind q = POSITIONAL_OR_KEYWORD \<longrightarrow> map_of kw (pname q) = None))"
    by blast
  note l = bind_keywords_left [OF bk]
  note l2 = l [THEN conjunct2, THEN conjunct1]
  note l3 = l [THEN conjunct2, THEN conjunct2, THEN conjunct1, rule_format]
  note l4 = l [THEN conjunct2, THEN conjunct2, THEN conjunct2, rule_format]
  from l3 dk have dkw: "distinct (map fst kw')" .
  have out: "pname q \<notin> fst ` set kw'"
    if q: "q \<in> set sig" "pkind q = POSITIONAL_OR_KEYWORD \<or> pkind q = KEYWORD_ONLY" for q
  proof -
    from q(1) c(1) consider "q \<in> set consumed" | "q \<in> set rest" by auto
    then show ?thesis
    proof cases
      case 1
      with c(2) have "pkind q = VAR_POSITIONAL \<or>
              (pname q \<in> fst ` set a1 \<and> pkind q \<noteq> KEYWORD_ONLY \<and> pkind q \<noteq> VAR_KEYWORD \<and>
               (pkind q = POSITIONAL_OR_KEYWORD \<longrightarrow> map_of kw (pname q) = None))" by blast
      with q(2) have "map_of kw (pname q) = None" by auto
      then have "pname q \<notin> fst ` set kw" by (simp add: map_of_eq_None_iff)
      with l2 show ?thesis by blast
    next
      case 2
      from q(2) have "pkind q \<noteq> VAR_POSITIONAL \<and> pkind q \<noteq> VAR_KEYWORD" by auto
      from l4 [OF 2 this] show ?thesis by blast
    qed
  qed
  show ?thesis
  proof (cases "kw' = []")
    case True
    with b bp bk a2 show ?thesis by (simp add: bind_def)
  next
    case False
    with b bp bk obtain q where q: "kp = Some q" and ba: "ba = dict_set (pname q) (VDict kw') a2"
      by (auto simp: bind_def split: option.splits)
    have "map_of ba (pname p) = None \<or> map_of ba (pname p) = Some (VDict kw')"
      using a2 by (auto simp: ba map_of_dict_set)
    with dkw out show ?thesis by blast
  qed
qed


lemma bind_roundtrip:
  assumes wf: "wf_signature sig" and b: "bind sig args kw = Inr ba"
    and dk: "distinct (map fst kw)"
  shows "\<exists>ba2. bind sig (bound_args sig (apply_defaults sig ba))
                  (bound_kwargs False sig (apply_defaults sig ba) []) = Inr ba2 \<and>
           apply_defaults sig ba2 = apply_defaults sig ba"
proof -
  let ?b = "apply_defaults sig ba"
  from wf have dn: "distinct (map pname sig)"
    and nd: "\<forall>p\<in>set sig. pkind p = VAR_POSITIONAL \<or> pkind p = VAR_KEYWORD \<longrightarrow> pdefault p = None"
    by (simp_all add: wf_signature_def)
  from wf obtain pos vps kwo vks where sig: "sig = pos @ vps @ kwo @ vks"
    and kpos: "\<forall>p\<in>set pos. pkind p = POSITIONAL_ONLY \<or> pkind p = POSITIONAL_OR_KEYWORD"
    and kvps: "\<forall>p\<in>set vps. pkind p = VAR_POSITIONAL" and lvps: "length vps \<le> 1"
    and kkwo: "\<forall>p\<in>set kwo. pkind p = KEYWORD_ONLY"
    and kvks: "\<forall>p\<in>set vks. pkind p = VAR_KEYWORD" and lvks: "length vks \<le> 1"
    by (rule wf_signature_split)
  define f where "f n = the (map_of ?b n)" for n
  have fv: "f (pname p) = the (case map_of ba (pname p) of
        Some v \<Rightarrow> Some v
      | None \<Rightarrow>
          (case pdefault p of
             Some d \<Rightarrow> Some d
           | None \<Rightarrow> if pkind p = VAR_POSITIONAL then Some (VTuple [])
                      else if pkind p = VAR_KEYWORD then Some (VDict []) else None))"
    if "p \<in> set sig" for p
    unfolding f_def by (simp only: map_of_apply_defaults [OF dn that])
  have eb: "?b = map (\<lambda>p. (pname p, f (pname p))) sig"
  proof (rule apply_defaults_entries, rule ballI)
    fix p assume p: "p \<in> set sig"
    note c = bind_complete [OF b p]
    show "map_of ba (pname p) = Some (f (pname p)) \<or>
       (map_of ba (pname p) = None \<and> pdefault p = Some (f (pname p))) \<or>
       (map_of ba (pname p) = None \<and> pdefault p = None \<and>
        (pkind p = VAR_POSITIONAL \<and> f (pname p) = VTuple [] \<or>
         pkind p = VAR_KEYWORD \<and> f (pname p) = VDict []))"
    proof (cases "map_of ba (pname p)")
      case (Some v)
      with fv [OF p] show ?thesis by simp
    next
      case None
      show ?thesis
      proof (cases "pdefault p")
        case (Some d)
        with None fv [OF p] show ?thesis by simp
      next
        case dn: None
        with None c have "pkind p = VAR_POSITIONAL \<or> pkind p = VAR_KEYWORD" by simp
        with None dn fv [OF p] show ?thesis by auto
      qed
    qed
  qed
  define vs where "vs = (case vps of [] \<Rightarrow> [] | vp # r \<Rightarrow> (case f (pname vp) of VTuple ts \<Rightarrow> ts | _ \<Rightarrow> []))"
  define dd where "dd = (case vks of [] \<Rightarrow> [] | vk # r \<Rightarrow> (case f (pname vk) of VDict d \<Rightarrow> d | _ \<Rightarrow> []))"
  have tv: "\<forall>p\<in>set vps. f (pname p) = VTuple vs"
  proof
    fix p assume p: "p \<in> set vps"
    with lvps have vps: "vps = [p]" by (cases vps) auto
    from p sig have ps: "p \<in> set sig" by simp
    from p kvps have k: "pkind p = VAR_POSITIONAL" by blast
    with nd ps have df: "pdefault p = None" by blast
    from bind_var_positional [OF dn ps k b] fv [OF ps] df k
    have "\<exists>ts. f (pname p) = VTuple ts" by auto
    then show "f (pname p) = VTuple vs" by (auto simp: vs_def vps)
  qed
  have te: "vps = [] \<longrightarrow> vs = []" by (simp add: vs_def)
  have vk: "f (pname p) = VDict dd \<and> distinct (map fst dd) \<and>
      (\<forall>q\<in>set sig. pkind q = POSITIONAL_OR_KEYWORD \<or> pkind q = KEYWORD_ONLY \<longrightarrow>
               pname q \<notin> fst ` set dd)" if p: "p \<in> set vks" for p
  proof -
    from p lvks have vks: "vks = [p]" by (cases vks) auto
    from p sig have ps: "p \<in> set sig" by simp
    from p kvks have k: "pkind p = VAR_KEYWORD" by blast
    with nd ps have df: "pdefault p = None" by blast
    from bind_var_keyword_dict [OF dn ps k b dk] fv [OF ps] df k
    have "\<exists>d. f (pname p) = VDict d \<and> distinct (map fst d) \<and>
      (\<forall>q\<in>set sig. pkind q = POSITIONAL_OR_KEYWORD \<or> pkind q = KEYWORD_ONLY \<longrightarrow>
               pname q \<notin> fst ` set d)" by auto
    then obtain d where d: "f (pname p) = VDict d" "distinct (map fst d)"
      "\<forall>q\<in>set sig. pkind q = POSITIONAL_OR_KEYWORD \<or> pkind q = KEYWORD_ONLY \<longrightarrow>
               pname q \<notin> fst ` set d" by blast
    from d(1) have "dd = d" by (simp add: dd_def vks)
    with d show ?thesis by simp
  qed
  have dv: "\<forall>p\<in>set vks. f (pname p) = VDict dd" using vk by blast
  have de: "vks = [] \<longrightarrow> dd = []" by (simp add: dd_def)
  have dd1: "distinct (map fst dd)"
  proof (cases vks)
    case Nil
    then show ?thesis by (simp add: dd_def)
  next
    case (Cons p r)
    then have "p \<in> set vks" by simp
    from vk [OF this] show ?thesis by simp
  qed
  have dd2: "\<forall>q\<in>set pos \<union> set kwo. pkind q \<noteq> POSITIONAL_ONLY \<longrightarrow> pname q \<notin> fst ` set dd"
  proof (cases vks)
    case Nil
    then show ?thesis by (simp add: dd_def)
  next
    case (Cons p r)
    then have "p \<in> set vks" by simp
    from vk [OF this]
    have o: "\<forall>q\<in>set sig. pkind q = POSITIONAL_OR_KEYWORD \<or> pkind q = KEYWORD_ONLY \<longrightarrow>
               pname q \<notin> fst ` set dd" by simp
    show ?thesis
    proof (intro ballI impI)
      fix q assume q: "q \<in> set pos \<union> set kwo" "pkind q \<noteq> POSITIONAL_ONLY"
      with kpos kkwo have "pkind q = POSITIONAL_OR_KEYWORD \<or> pkind q = KEYWORD_ONLY" by auto
      moreover from q(1) sig have "q \<in> set sig" by auto
      ultimately show "pname q \<notin> fst ` set dd" using o by blast
    qed
  qed
  from rebind [OF sig kpos kvps lvps kkwo kvks lvks dn nd tv te dv de dd1 dd2 eb]
  show ?thesis .
qed


lemma map_of_dict_pop: "k \<noteq> n \<Longrightarrow> map_of (dict_pop k kvs) n = map_of kvs n"
  by (induction kvs) (auto simp: dict_pop_def)

lemma bind_keywords_param:
  assumes "bind_keywords ps kw acc kp = Inr (acc', kw', kp')"
  shows "kp' = kp \<or> (\<exists>q\<in>set ps. kp' = Some q \<and> pkind q = VAR_KEYWORD)"
  using assms
proof (induction ps kw acc kp rule: bind_keywords.induct)
  case (1 kwargs arguments kwargs_param)
  then show ?case by simp
next
  case (2 param parameters kwargs arguments kwargs_param)
  show ?case
  proof (cases "pkind param = VAR_KEYWORD")
    case True
    with "2.prems" have r: "bind_keywords parameters kwargs arguments (Some param) = Inr (acc', kw', kp')"
      by simp
    from "2.IH"(1) [OF True r] True show ?thesis by auto
  next
    case nk: False
    show ?thesis
    proof (cases "pkind param = VAR_POSITIONAL")
      case True
      with "2.prems" nk have r: "bind_keywords parameters kwargs arguments kwargs_param = Inr (acc', kw', kp')"
        by simp
      from "2.IH"(2) [OF nk True r] show ?thesis by auto
    next
      case np: False
      show ?thesis
      proof (cases "map_of kwargs (pname param)")
        case None
        with "2.prems" nk np have df: "pdefault param \<noteq> None"
          and r: "bind_keywords parameters kwargs arguments kwargs_param = Inr (acc', kw', kp')"
          by (auto split: if_splits)
        from "2.IH"(3) [OF nk np None df r] show ?thesis by auto
      next
        case (Some v)
        with "2.prems" nk np have po: "pkind param \<noteq> POSITIONAL_ONLY"
          and r: "bind_keywords parameters (dict_pop (pname param) kwargs)
                    (dict_set (pname param) v arguments) kwargs_param = Inr (acc', kw', kp')"
          by (auto split: if_splits)
        from "2.IH"(4) [OF nk np Some po r] show ?thesis by auto
      qed
    qed
  qed
qed

lemma bind_keywords_named:
  assumes "bind_keywords ps kw acc kp = Inr (acc', kw', kp')"
    and "p \<in> set ps" and "pkind p \<noteq> VAR_POSITIONAL" and "pkind p \<noteq> VAR_KEYWORD"
    and "map_of kw (pname p) = Some v" and "distinct (map pname ps)"
  shows "map_of acc' (pname p) = Some v"
  using assms
proof (induction ps kw acc kp rule: bind_keywords.induct)
  case (1 kwargs arguments kwargs_param)
  then show ?case by simp
next
  case (2 param parameters kwargs arguments kwargs_param)
  from "2.prems"(6) have dp: "distinct (map pname parameters)"
    and fresh: "pname param \<notin> pname ` set parameters" by simp_all
  show ?case
  proof (cases "param = p")
    case True
    with "2.prems" have r: "bind_keywords parameters (dict_pop (pname p) kwargs)
                    (dict_set (pname p) v arguments) kwargs_param = Inr (acc', kw', kp')"
      by (auto split: if_splits)
    from fresh True have "\<forall>q\<in>set parameters. pkind q \<noteq> VAR_POSITIONAL \<and> pkind q \<noteq> VAR_KEYWORD
        \<longrightarrow> pname q \<noteq> pname p" by (metis imageI)
    from bind_keywords_value [OF this r] show ?thesis by (simp add: map_of_dict_set)
  next
    case False
    with "2.prems"(2) have pin: "p \<in> set parameters" by simp
    with fresh have ne: "pname param \<noteq> pname p" by (metis imageI)
    show ?thesis
    proof (cases "pkind param = VAR_KEYWORD")
      case True
      with "2.prems" have r: "bind_keywords parameters kwargs arguments (Some param) = Inr (acc', kw', kp')"
        by simp
      from "2.IH"(1) [OF True r pin "2.prems"(3,4,5) dp] show ?thesis .
    next
      case nk: False
      show ?thesis
      proof (cases "pkind param = VAR_POSITIONAL")
        case True
        with "2.prems" nk have r: "bind_keywords parameters kwargs arguments kwargs_param = Inr (acc', kw', kp')"
          by simp
        from "2.IH"(2) [OF nk True r pin "2.prems"(3,4,5) dp] show ?thesis .
      next
        case np: False
        show ?thesis
        proof (cases "map_of kwargs (pname param)")
          case None
          with "2.prems" nk np have df: "pdefault param \<noteq> None"
            and r: "bind_keywords parameters kwargs arguments kwargs_param = Inr (acc', kw', kp')"
            by (auto split: if_splits)
          from "2.IH"(3) [OF nk np None df r pin "2.prems"(3,4,5) dp] show ?thesis .
        next
          case (Some v')
          with "2.prems" nk np have po: "pkind param \<noteq> POSITIONAL_ONLY"
            and r: "bind_keywords parameters (dict_pop (pname param) kwargs)
                      (dict_set (pname param) v' arguments) kwargs_param = Inr (acc', kw', kp')"
            by (auto split: if_splits)
          from "2.prems"(5) ne have m: "map_of (dict_pop (pname param) kwargs) (pname p) = Some v"
            by (simp add: map_of_dict_pop)
          from "2.IH"(4) [OF nk np Some po r pin "2.prems"(3,4) m dp] show ?thesis .
        qed
      qed
    qed
  qed
qed

lemma bind_named:
  assumes d: "distinct (map pname sig)" and b: "bind sig args kw = Inr ba"
    and p: "p \<in> set sig" "pkind p = POSITIONAL_OR_KEYWORD \<or> pkind p = KEYWORD_ONLY"
    and m: "map_of kw (pname p) = Some v"
  shows "map_of ba (pname p) = Some v"
proof -
  from b obtain a1 rest where
    bp: "bind_positional sig args kw [] = Inr (a1, rest)"
    by (auto simp: bind_def split: sum.splits)
  with b obtain a2 kw' kp where
    bk: "bind_keywords rest kw a1 None = Inr (a2, kw', kp)"
    by (auto simp: bind_def split: sum.splits)
  from bind_positional_consumed [OF bp] obtain consumed where
    c: "sig = consumed @ rest"
      "\<forall>q\<in>set consumed. pkind q = VAR_POSITIONAL \<or>
              (pname q \<in> fst ` set a1 \<and> pkind q \<noteq> KEYWORD_ONLY \<and> pkind q \<noteq> VAR_KEYWORD \<and>
               (pkind q = POSITIONAL_OR_KEYWORD \<longrightarrow> map_of kw (pname q) = None))"
    by blast
  have "p \<notin> set consumed"
  proof
    assume "p \<in> set consumed"
    with c(2) have "pkind p = VAR_POSITIONAL \<or>
              (pname p \<in> fst ` set a1 \<and> pkind p \<noteq> KEYWORD_ONLY \<and> pkind p \<noteq> VAR_KEYWORD \<and>
               (pkind p = POSITIONAL_OR_KEYWORD \<longrightarrow> map_of kw (pname p) = None))" by blast
    with p(2) m show False by auto
  qed
  with p(1) c(1) have pr: "p \<in> set rest" by auto
  from d c(1) have dr: "distinct (map pname rest)" by simp
  from p(2) have k: "pkind p \<noteq> VAR_POSITIONAL" "pkind p \<noteq> VAR_KEYWORD" by auto
  from bind_keywords_named [OF bk pr k m dr] have a2: "map_of a2 (pname p) = Some v" .
  show ?thesis
  proof (cases "kw' = []")
    case True
    with b bp bk have "ba = a2" by (simp add: bind_def)
    with a2 show ?thesis by simp
  next
    case False
    with b bp bk obtain q where q: "kp = Some q" and ba: "ba = dict_set (pname q) (VDict kw') a2"
      by (auto simp: bind_def split: option.splits)
    from bind_keywords_param [OF bk] q have "q \<in> set rest" "pkind q = VAR_KEYWORD" by auto
    with c(1) have "q \<in> set sig" "pkind q \<noteq> pkind p" using k(2) by auto
    from distinct_names_other [OF d p(1) this] a2 show ?thesis
      by (simp add: ba map_of_dict_set)
  qed
qed

lemma bind_positional_nth:
  assumes "bind_positional ps vs kw acc = Inr (acc', rest)"
    and "i < length vs" and "i < length ps"
    and "\<forall>j\<le>i. pkind (ps ! j) = POSITIONAL_ONLY \<or> pkind (ps ! j) = POSITIONAL_OR_KEYWORD"
    and "distinct (map pname ps)"
  shows "map_of acc' (pname (ps ! i)) = Some (vs ! i) \<and> (\<forall>q\<in>set rest. pname q \<noteq> pname (ps ! i))"
  using assms
proof (induction ps vs kw acc arbitrary: i rule: bind_positional.induct)
  case (1 kwargs arguments)
  then show ?case by simp
next
  case (2 param parameters kwargs arguments)
  then show ?case by simp
next
  case (3 arg_val arg_vals kwargs arguments)
  then show ?case by simp
next
  case (4 param parameters arg_val arg_vals kwargs arguments)
  from "4.prems"(4) have k0: "pkind param = POSITIONAL_ONLY \<or> pkind param = POSITIONAL_OR_KEYWORD"
    by auto
  then have k: "\<not> (pkind param = VAR_KEYWORD \<or> pkind param = KEYWORD_ONLY)"
    "pkind param \<noteq> VAR_POSITIONAL" by auto
  with "4.prems"(1) have c: "\<not> (map_of kwargs (pname param) \<noteq> None \<and> pkind param \<noteq> POSITIONAL_ONLY)"
    and r: "bind_positional parameters arg_vals kwargs (dict_set (pname param) arg_val arguments)
              = Inr (acc', rest)"
    by (auto split: if_splits)
  from "4.prems"(5) have dp: "distinct (map pname parameters)"
    and fresh: "pname param \<notin> pname ` set parameters" by simp_all
  show ?case
  proof (cases i)
    case 0
    from fresh have o: "\<forall>q\<in>set parameters. pkind q \<noteq> VAR_KEYWORD \<longrightarrow> pname q \<noteq> pname param"
      by (metis imageI)
    from bind_positional_other [OF o r]
    have v: "map_of acc' (pname param) = Some arg_val" and sub: "set rest \<subseteq> set parameters"
      by (simp_all add: map_of_dict_set)
    from sub fresh have "\<forall>q\<in>set rest. pname q \<noteq> pname param" by (metis imageI subsetD)
    with v show ?thesis by (simp add: 0)
  next
    case (Suc i')
    from "4.prems"(2,3) Suc have l: "i' < length arg_vals" "i' < length parameters" by simp_all
    have ks: "\<forall>j\<le>i'. pkind (parameters ! j) = POSITIONAL_ONLY \<or>
        pkind (parameters ! j) = POSITIONAL_OR_KEYWORD"
    proof (intro allI impI)
      fix j assume "j \<le> i'"
      then have "Suc j \<le> i" by (simp add: Suc)
      with "4.prems"(4) have "pkind ((param # parameters) ! Suc j) = POSITIONAL_ONLY \<or>
          pkind ((param # parameters) ! Suc j) = POSITIONAL_OR_KEYWORD" by blast
      then show "pkind (parameters ! j) = POSITIONAL_ONLY \<or>
        pkind (parameters ! j) = POSITIONAL_OR_KEYWORD" by simp
    qed
    from "4.IH" [OF k c r l ks dp] show ?thesis by (simp add: Suc)
  qed
qed

lemma bind_nth:
  assumes d: "distinct (map pname sig)" and b: "bind sig args kw = Inr ba"
    and i: "i < length args" "i < length sig"
    and k: "\<forall>j\<le>i. pkind (sig ! j) = POSITIONAL_ONLY \<or> pkind (sig ! j) = POSITIONAL_OR_KEYWORD"
  shows "map_of ba (pname (sig ! i)) = Some (args ! i)"
proof -
  from b obtain a1 rest where
    bp: "bind_positional sig args kw [] = Inr (a1, rest)"
    by (auto simp: bind_def split: sum.splits)
  with b obtain a2 kw' kp where
    bk: "bind_keywords rest kw a1 None = Inr (a2, kw', kp)"
    by (auto simp: bind_def split: sum.splits)
  from bind_positional_nth [OF bp i k d]
  have a1: "map_of a1 (pname (sig ! i)) = Some (args ! i)"
    and o: "\<forall>q\<in>set rest. pname q \<noteq> pname (sig ! i)" by simp_all
  from o have "\<forall>q\<in>set rest. pkind q \<noteq> VAR_POSITIONAL \<and> pkind q \<noteq> VAR_KEYWORD
      \<longrightarrow> pname q \<noteq> pname (sig ! i)" by blast
  from bind_keywords_value [OF this bk] a1
  have a2: "map_of a2 (pname (sig ! i)) = Some (args ! i)" by simp
  show ?thesis
  proof (cases "kw' = []")
    case True
    with b bp bk have "ba = a2" by (simp add: bind_def)
    with a2 show ?thesis by simp
  next
    case False
    with b bp bk obtain q where q: "kp = Some q" and ba: "ba = dict_set (pname q) (VDict kw') a2"
      by (auto simp: bind_def split: option.splits)
    from bind_keywords_param [OF bk] q have "q \<in> set rest" by auto
    with o have "pname q \<noteq> pname (sig ! i)" by blast
    with a2 show ?thesis by (simp add: ba map_of_dict_set)
  qed
qed


lemma wf_signature_positional:
  assumes wf: "wf_signature sig" and i: "i < length sig"
    and k: "pkind (sig ! i) = POSITIONAL_ONLY \<or> pkind (sig ! i) = POSITIONAL_OR_KEYWORD"
  shows "\<forall>j\<le>i. pkind (sig ! j) = POSITIONAL_ONLY \<or> pkind (sig ! j) = POSITIONAL_OR_KEYWORD"
proof (intro allI impI)
  fix j assume j: "j \<le> i"
  from wf have "sorted (map (\<lambda>p. kind_rank (pkind p)) sig)" by (simp add: wf_signature_def)
  from sorted_nth_mono [OF this, of j i] j i
  have "kind_rank (pkind (sig ! j)) \<le> kind_rank (pkind (sig ! i))" by simp
  moreover from k have "kind_rank (pkind (sig ! i)) \<le> 1" by auto
  ultimately have "kind_rank (pkind (sig ! j)) \<le> 1" by simp
  then show "pkind (sig ! j) = POSITIONAL_ONLY \<or> pkind (sig ! j) = POSITIONAL_OR_KEYWORD"
    by (cases "pkind (sig ! j)") simp_all
qed

lemma map_of_filter_keys:
  "k \<in> N \<Longrightarrow> map_of (filter (\<lambda>(k, v). k \<in> N) kvs) k = map_of kvs k"
  by (induction kvs) auto

text \<open>
  C5, amended. For every callable with the signature of a Python function and every
  pool of named arguments (a dictionary: distinct keys) that has no key \<open>fn\<close>,
  run_injected drops the named arguments whose key is not a parameter name, binds the
  positional and the surviving named arguments to the signature, and returns the
  binding error, or else the result of the body on the bound arguments with the
  defaults applied. There the i-th positional argument is the value of the i-th
  parameter, a surviving named argument is the value of the parameter of its name,
  and a parameter the binding leaves unbound holds its declared default. On
  \<open>foo(x, y=1, *, z=None)\<close>: \<open>run_injected(foo, 5, a=4, b=5, z=6) = (5, 1, 6)\<close>,
  \<open>run_injected(foo, 5) = (5, 1, None)\<close> and \<open>run_injected(foo, 5, u=None) = (5, 1, None)\<close>.
\<close>

theorem run_injected_filters:
  assumes wf: "wf_signature (signature fn)" and dk: "distinct (map fst kwargs)"
    and nf: "''fn'' \<notin> fst ` set kwargs"
  shows "run_injected fn args kwargs =
           (case bind (signature fn) args
                   (filter (\<lambda>(k, v). k \<in> pname ` set (signature fn)) kwargs) of
              Inl e \<Rightarrow> Inl e
            | Inr arguments \<Rightarrow> Inr (body fn (apply_defaults (signature fn) arguments))) \<and>
         (\<forall>arguments.
            bind (signature fn) args
              (filter (\<lambda>(k, v). k \<in> pname ` set (signature fn)) kwargs) = Inr arguments \<longrightarrow>
            (\<forall>i. i < length args \<and> i < length (signature fn) \<and>
                 (pkind (signature fn ! i) = POSITIONAL_ONLY \<or>
                  pkind (signature fn ! i) = POSITIONAL_OR_KEYWORD) \<longrightarrow>
                 map_of (apply_defaults (signature fn) arguments) (pname (signature fn ! i))
                   = Some (args ! i)) \<and>
            (\<forall>p v. p \<in> set (signature fn) \<and>
                 (pkind p = POSITIONAL_OR_KEYWORD \<or> pkind p = KEYWORD_ONLY) \<and>
                 map_of kwargs (pname p) = Some v \<longrightarrow>
                 map_of (apply_defaults (signature fn) arguments) (pname p) = Some v) \<and>
            (\<forall>p d. p \<in> set (signature fn) \<and> map_of arguments (pname p) = None \<and>
                 pdefault p = Some d \<longrightarrow>
                 map_of (apply_defaults (signature fn) arguments) (pname p) = Some d)) \<and>
         run_injected foo [VInt 5] [(''a'', VInt 4), (''b'', VInt 5), (''z'', VInt 6)]
           = Inr (VTuple [VInt 5, VInt 1, VInt 6]) \<and>
         run_injected foo [VInt 5] [] = Inr (VTuple [VInt 5, VInt 1, VNone]) \<and>
         run_injected foo [VInt 5] [(''u'', VNone)] = Inr (VTuple [VInt 5, VInt 1, VNone])"
proof -
  let ?sig = "signature fn"
  let ?out = "filter (\<lambda>(k, v). k \<in> pname ` set ?sig) kwargs"
  from wf have dn: "distinct (map pname ?sig)" by (simp add: wf_signature_def)
  from dk have dout: "distinct (map fst ?out)" by (rule distinct_map_filter)
  from nf have nfm: "map_of kwargs ''fn'' = None" by (simp add: map_of_eq_None_iff)
  have main: "run_injected fn args kwargs =
           (case bind ?sig args ?out of
              Inl e \<Rightarrow> Inl e
            | Inr arguments \<Rightarrow> Inr (body fn (apply_defaults ?sig arguments)))"
  proof (cases "bind ?sig args ?out")
    case (Inl e)
    with nfm show ?thesis by (simp add: run_injected_def Let_def)
  next
    case (Inr ba)
    from bind_roundtrip [OF wf Inr dout] obtain ba2 where
      "bind ?sig (bound_args ?sig (apply_defaults ?sig ba))
         (bound_kwargs False ?sig (apply_defaults ?sig ba) []) = Inr ba2"
      "apply_defaults ?sig ba2 = apply_defaults ?sig ba" by blast
    with Inr nfm show ?thesis by (simp add: run_injected_def Let_def call_def)
  qed
  have vals: "(\<forall>i. i < length args \<and> i < length ?sig \<and>
                 (pkind (?sig ! i) = POSITIONAL_ONLY \<or> pkind (?sig ! i) = POSITIONAL_OR_KEYWORD) \<longrightarrow>
                 map_of (apply_defaults ?sig ba) (pname (?sig ! i)) = Some (args ! i)) \<and>
            (\<forall>p v. p \<in> set ?sig \<and>
                 (pkind p = POSITIONAL_OR_KEYWORD \<or> pkind p = KEYWORD_ONLY) \<and>
                 map_of kwargs (pname p) = Some v \<longrightarrow>
                 map_of (apply_defaults ?sig ba) (pname p) = Some v) \<and>
            (\<forall>p d. p \<in> set ?sig \<and> map_of ba (pname p) = None \<and> pdefault p = Some d \<longrightarrow>
                 map_of (apply_defaults ?sig ba) (pname p) = Some d)"
    if b: "bind ?sig args ?out = Inr ba" for ba
  proof (intro conjI allI impI)
    fix i
    assume a: "i < length args \<and> i < length ?sig \<and>
       (pkind (?sig ! i) = POSITIONAL_ONLY \<or> pkind (?sig ! i) = POSITIONAL_OR_KEYWORD)"
    then have i: "i < length args" "i < length ?sig" by simp_all
    from a have k: "pkind (?sig ! i) = POSITIONAL_ONLY \<or> pkind (?sig ! i) = POSITIONAL_OR_KEYWORD"
      by simp
    from bind_nth [OF dn b i wf_signature_positional [OF wf i(2) k]]
    have "map_of ba (pname (?sig ! i)) = Some (args ! i)" .
    moreover from i(2) have "?sig ! i \<in> set ?sig" by simp
    ultimately show "map_of (apply_defaults ?sig ba) (pname (?sig ! i)) = Some (args ! i)"
      by (simp add: map_of_apply_defaults [OF dn])
  next
    fix p v
    assume a: "p \<in> set ?sig \<and> (pkind p = POSITIONAL_OR_KEYWORD \<or> pkind p = KEYWORD_ONLY) \<and>
       map_of kwargs (pname p) = Some v"
    then have p: "p \<in> set ?sig" and k: "pkind p = POSITIONAL_OR_KEYWORD \<or> pkind p = KEYWORD_ONLY"
      by simp_all
    from p have "pname p \<in> pname ` set ?sig" by simp
    from map_of_filter_keys [OF this, of kwargs] a have "map_of ?out (pname p) = Some v" by simp
    from bind_named [OF dn b p k this] show "map_of (apply_defaults ?sig ba) (pname p) = Some v"
      by (simp add: map_of_apply_defaults [OF dn p])
  next
    fix p d
    assume "p \<in> set ?sig \<and> map_of ba (pname p) = None \<and> pdefault p = Some d"
    then show "map_of (apply_defaults ?sig ba) (pname p) = Some d"
      by (simp add: map_of_apply_defaults [OF dn])
  qed
  have t1: "run_injected foo [VInt 5] [(''a'', VInt 4), (''b'', VInt 5), (''z'', VInt 6)]
     = Inr (VTuple [VInt 5, VInt 1, VInt 6])"
    by (simp add: run_injected_def call_def bind_def foo_def dict_pop_def local_var_def)
  have t2: "run_injected foo [VInt 5] [] = Inr (VTuple [VInt 5, VInt 1, VNone])"
    by (simp add: run_injected_def call_def bind_def foo_def dict_pop_def local_var_def)
  have t3: "run_injected foo [VInt 5] [(''u'', VNone)] = Inr (VTuple [VInt 5, VInt 1, VNone])"
    by (simp add: run_injected_def call_def bind_def foo_def dict_pop_def local_var_def)
  from main vals t1 t2 t3 show ?thesis by blast
qed

theorem run_injected_filters_witness:
  "wf_signature (signature foo) \<and>
   distinct (map fst [(''a'', VInt 4), (''b'', VInt 5), (''z'', VInt 6)]) \<and>
   ''fn'' \<notin> fst ` set [(''a'', VInt 4), (''b'', VInt 5), (''z'', VInt 6)] \<and>
   bind (signature foo) [VInt 5] [(''z'', VInt 6)] = Inr [(''x'', VInt 5), (''z'', VInt 6)] \<and>
   apply_defaults (signature foo) [(''x'', VInt 5), (''z'', VInt 6)]
     = [(''x'', VInt 5), (''y'', VInt 1), (''z'', VInt 6)] \<and>
   run_injected foo [VInt 5] [(''a'', VInt 4), (''b'', VInt 5), (''z'', VInt 6)]
     = Inr (body foo [(''x'', VInt 5), (''y'', VInt 1), (''z'', VInt 6)])"
proof -
  have w: "wf_signature (signature foo)"
    by (simp add: wf_signature_def foo_def)
  have d: "distinct (map fst [(''a'', VInt 4), (''b'', VInt 5), (''z'', VInt 6)])" by simp
  have n: "''fn'' \<notin> fst ` set [(''a'', VInt 4), (''b'', VInt 5), (''z'', VInt 6)]" by simp
  have f: "filter (\<lambda>(k, v). k \<in> pname ` set (signature foo))
             [(''a'', VInt 4), (''b'', VInt 5), (''z'', VInt 6)] = [(''z'', VInt 6)]"
    by (simp add: foo_def)
  have b: "bind (signature foo) [VInt 5] [(''z'', VInt 6)] = Inr [(''x'', VInt 5), (''z'', VInt 6)]"
    by (simp add: bind_def foo_def dict_pop_def)
  have a: "apply_defaults (signature foo) [(''x'', VInt 5), (''z'', VInt 6)]
     = [(''x'', VInt 5), (''y'', VInt 1), (''z'', VInt 6)]"
    by (simp add: foo_def)
  from run_injected_filters [OF w d n, of "[VInt 5]", THEN conjunct1]
  have "run_injected foo [VInt 5] [(''a'', VInt 4), (''b'', VInt 5), (''z'', VInt 6)]
     = Inr (body foo [(''x'', VInt 5), (''y'', VInt 1), (''z'', VInt 6)])"
    by (simp only: f b a sum.case)
  with w d n b a show ?thesis by blast
qed

text \<open>
  C5 as stated, for every argument pool, fails on the key \<open>fn\<close>: it is not a parameter
  name of \<open>foo\<close>, yet \<open>run_injected(foo, 5, fn=1)\<close> does not drop it and return
  \<open>(5, 1, None)\<close> as \<open>run_injected(foo, 5)\<close> does; the call raises TypeError.
\<close>

theorem run_injected_fn_key:
  "''fn'' \<notin> pname ` set (signature foo) \<and>
   run_injected foo [VInt 5] [(''fn'', VInt 1)] = Inl TypeError \<and>
   run_injected foo [VInt 5] [] = Inr (VTuple [VInt 5, VInt 1, VNone])"
  by (simp add: run_injected_def call_def bind_def foo_def dict_pop_def local_var_def)

section \<open>A conversion that raises\<close>

lemma extends_refl: "extends h h"
  by (simp add: extends_def)

lemma extends_trans: "extends h1 h2 \<Longrightarrow> extends h2 h3 \<Longrightarrow> extends h1 h3"
  unfolding extends_def by (meson prefix_order.order_trans)

lemma extends_nth:
  assumes "extends h h'"
  shows "(\<forall>r<length (mods h). mods h' ! r = mods h ! r) \<and>
         (\<forall>t<length (tensors h). tensors h' ! t = tensors h ! t) \<and>
         (\<forall>s<length (storages h). storages h' ! s = storages h ! s)"
  using assms unfolding extends_def prefix_def by (auto simp: nth_append)

lemma expand_Conv1D_extends: "extends h (snd (expand_Conv1D probe h m))"
  by (cases "payload (mods h ! m)")
     (simp_all add: expand_Conv1D_def extends_def unsqueeze_last_def Parameter_def
        alloc_tensor_def alloc_module_def split: option.splits)

lemma simple_expand_extends: "extends h (snd (simple_expand BaseT DestT h m))"
  by (simp add: simple_expand_def extends_def alloc_module_def Let_def split: sum.splits)

lemma copy_entries_frame:
  assumes "\<forall>(k, p)\<in>set dst. n \<le> storage (tensors h ! p)"
  shows "mods (snd (copy_entries dst src h)) = mods h \<and>
         tensors (snd (copy_entries dst src h)) = tensors h \<and>
         take n (storages (snd (copy_entries dst src h))) = take n (storages h)"
  using assms
proof (induction dst arbitrary: h)
  case Nil
  then show ?case by simp
next
  case (Cons kp dst)
  obtain k p where kp: "kp = (k, p)" by (cases kp)
  from Cons.prems kp have p: "n \<le> storage (tensors h ! p)"
    and rest: "\<forall>(k, p)\<in>set dst. n \<le> storage (tensors h ! p)"
    by auto
  show ?case
  proof (cases "map_of src k")
    case None
    with Cons.IH [OF rest] show ?thesis by (simp add: kp)
  next
    case (Some t)
    show ?thesis
    proof (cases "shape (tensors h ! t) \<noteq> shape (tensors h ! p)")
      case True
      with Some Cons.IH [OF rest] show ?thesis by (simp add: kp)
    next
      case False
      have t: "tensors (tensor_copy p t h) = tensors h" "mods (tensor_copy p t h) = mods h"
        "take n (storages (tensor_copy p t h)) = take n (storages h)"
        using p by (simp_all add: tensor_copy_def)
      from rest have "\<forall>(k', p')\<in>set dst. n \<le> storage (tensors (tensor_copy p t h) ! p')"
        by (simp add: tensor_copy_def)
      from Cons.IH [OF this] Some False t show ?thesis by (simp add: kp)
    qed
  qed
qed

lemma BatchNorm2d_init_fresh:
  assumes "BatchNorm2d_init nf e mo aff tr h = (b2, h1)"
  shows "mods h1 = mods h \<and> prefix (tensors h) (tensors h1) \<and>
         prefix (storages h) (storages h1) \<and>
         (\<forall>(k, p)\<in>set (state_dict b2). length (storages h) \<le> storage (tensors h1 ! p))"
  using assms
  by (cases aff; cases tr)
     (auto simp: BatchNorm2d_init_def new_opt_tensor_def new_tensor_def alloc_storage_def
        alloc_tensor_def state_dict_def nth_append)

lemma expand_BatchNorm1d_extends: "extends h (snd (expand_BatchNorm1d h m))"
proof (cases "payload (mods h ! m)")
  case (BatchNorm1d b)
  obtain b2 h1 where i: "BatchNorm2d_init (num_features b) (eps b) (momentum b) (affine b)
                             (track_running_stats b) h = (b2, h1)"
    by (cases "BatchNorm2d_init (num_features b) (eps b) (momentum b) (affine b)
                             (track_running_stats b) h")
  let ?h2 = "h1\<lparr>mods := mods h1 @ [\<lparr>type_name = ''BatchNorm2d'', payload = BatchNorm2d b2,
                                     modules = []\<rparr>]\<rparr>"
  let ?h3 = "snd (copy_entries (state_dict b2) (state_dict b) ?h2)"
  from BatchNorm2d_init_fresh [OF i]
  have f: "mods h1 = mods h" "prefix (tensors h) (tensors h1)" "prefix (storages h) (storages h1)"
    "\<forall>(k, p)\<in>set (state_dict b2). length (storages h) \<le> storage (tensors ?h2 ! p)"
    by simp_all
  from copy_entries_frame [OF f(4), of "state_dict b"]
  have c: "mods ?h3 = mods ?h2" "tensors ?h3 = tensors ?h2"
    "take (length (storages h)) (storages ?h3) = take (length (storages h)) (storages ?h2)"
    by simp_all
  from f(3) have "take (length (storages h)) (storages h1) = storages h"
    by (auto simp: prefix_def)
  with c(3) have "take (length (storages h)) (storages ?h3) = storages h" by simp
  then have "prefix (storages h) (storages ?h3)"
    by (metis take_is_prefix)
  with c f have e: "extends h ?h3" by (simp add: extends_def)
  have "snd (expand_BatchNorm1d h m) = ?h3"
    using BatchNorm1d i
    by (auto simp: expand_BatchNorm1d_def alloc_module_def load_state_dict_def Let_def
          split: prod.splits option.splits)
  with e show ?thesis by simp
qed (simp_all add: expand_BatchNorm1d_def extends_refl)

lemma default_expansions_allocate:
  "default_expansions oracle name = Some f \<Longrightarrow> allocates_only f"
  by (auto simp: default_expansions_def allocates_only_def expand_Conv1D_extends
        expand_BatchNorm1d_extends simple_expand_extends split: if_splits)

lemma build_mapping_extends:
  assumes "\<forall>name f. expansions name = Some f \<longrightarrow> allocates_only f"
  shows "extends h (snd (build_mapping expansions names mapping h))"
proof (induction names arbitrary: mapping h)
  case Nil
  then show ?case by (simp add: extends_refl)
next
  case (Cons nm names)
  obtain name m where nm: "nm = (name, m)" by (cases nm)
  show ?case
  proof (cases "expansions (type_name (mods h ! m))")
    case None
    with Cons show ?thesis by (simp add: nm)
  next
    case (Some f)
    with assms have "extends h (snd (f h m))" by (simp add: allocates_only_def)
    moreover obtain res h1 where r: "f h m = (res, h1)" by (cases "f h m")
    ultimately have e: "extends h h1" by simp
    from Cons [where h = h1] e have "\<And>mp. extends h (snd (build_mapping expansions names mp h1))"
      by (blast intro: extends_trans)
    with Some r e show ?thesis
      by (auto simp: nm split: sum.splits option.splits)
  qed
qed


text \<open>
  C2, amended. For every model hierarchy and every rule table whose conversion
  functions only construct new objects (they assign to no existing module, tensor or
  storage): when a conversion function raises while the mapping is built, auto_expand
  raises the same exception, no substitution is applied, and every module, tensor
  and storage of the store that was passed in is unchanged, so the hierarchy is
  exactly as it was.
\<close>

theorem auto_expand_failed_conversion:
  assumes "\<forall>name f. rule_table oracle expansions name = Some f \<longrightarrow> allocates_only f"
    and "build_mapping (rule_table oracle expansions) (named_modules h model) [] h = (Inl e, h')"
  shows "auto_expand oracle h model expansions = (Inl e, h') \<and>
         (\<forall>r<length (mods h). mods h' ! r = mods h ! r) \<and>
         (\<forall>t<length (tensors h). tensors h' ! t = tensors h ! t) \<and>
         (\<forall>s<length (storages h). storages h' ! s = storages h ! s)"
proof -
  have "extends h h'"
    using build_mapping_extends [OF assms(1), of h "named_modules h model" "[]"] assms(2)
    by simp
  with extends_nth [of h h'] assms(2) show ?thesis
    by (simp add: auto_expand_def)
qed

lemma named_modules_tree_heap:
  "named_modules tree_heap 0 =
     [([], 0), (''a'', 1), (''a.b'', 2), (''a.b.c'', 3), (''a.b.e'', 5), (''d'', 4)]"
  by (simp add: named_modules_def tree_heap_def other_def child_prefix_def)

theorem auto_expand_failed_conversion_witness:
  "fst (auto_expand bad_oracle tree_heap 0 None) = Inl ValueError \<and>
   mods (snd (auto_expand bad_oracle tree_heap 0 None)) ! 0 = mods tree_heap ! 0 \<and>
   mods (snd (auto_expand bad_oracle tree_heap 0 None)) ! 2 = mods tree_heap ! 2 \<and>
   mods (snd (auto_expand bad_oracle tree_heap 0 None)) ! 3 = mods tree_heap ! 3"
proof -
  have a: "\<forall>name f. rule_table bad_oracle None name = Some f \<longrightarrow> allocates_only f"
    by (simp add: rule_table_def default_expansions_allocate)
  have v: "validate bad_probe [0 ..< 2] = Some ValueError"
    by (simp add: validate_two bad_probe_def)
  have e: "fst (expand_Conv1D bad_probe tree_heap 3) = Inl ValueError"
    by (simp add: expand_Conv1D_def v tree_heap_def unsqueeze_last_def
          Parameter_def alloc_tensor_def alloc_module_def)
  then obtain hx where ex: "expand_Conv1D bad_probe tree_heap 3 = (Inl ValueError, hx)"
    by (cases "expand_Conv1D bad_probe tree_heap 3") simp
  have t: "type_name (mods tree_heap ! 0) = ''Net''"
    "type_name (mods tree_heap ! Suc 0) = ''Block''"
    "type_name (mods tree_heap ! 2) = ''Branch''" "type_name (mods tree_heap ! 3) = ''Conv1d''"
    by (simp_all add: tree_heap_def other_def)
  have l: "default_expansions bad_oracle ''Net'' = None"
    "default_expansions bad_oracle ''Block'' = None"
    "default_expansions bad_oracle ''Branch'' = None"
    "default_expansions bad_oracle ''Conv1d'' = Some (\<lambda>h m. expand_Conv1D (bad_oracle m) h m)"
    by (simp_all add: default_expansions_def)
  have "fst (build_mapping (rule_table bad_oracle None) (named_modules tree_heap 0) [] tree_heap)
          = Inl ValueError"
    unfolding named_modules_tree_heap rule_table_def
    by (simp add: t l ex bad_oracle_def)
  then obtain h' where b: "build_mapping (rule_table bad_oracle None) (named_modules tree_heap 0)
      [] tree_heap = (Inl ValueError, h')"
    by (cases "build_mapping (rule_table bad_oracle None) (named_modules tree_heap 0) [] tree_heap")
       simp
  from auto_expand_failed_conversion [OF a b] show ?thesis
    by (simp add: tree_heap_def)
qed

text \<open>
  C2 as stated, for every rule table, fails for a conversion function that assigns to
  an existing module before it raises: with \<open>mut_raise\<close> for the nodes of kind \<open>Block\<close>,
  auto_expand raises ValueError and leaves the block \<open>a\<close> of \<open>tree_heap\<close> with a new
  child \<open>x\<close>. (The traversal reaches the block first of the nodes in the table, and
  the exception ends the loop: nothing of the traversal depends on the assignment.)
\<close>

theorem auto_expand_failed_conversion_mutates:
  "modules (mods tree_heap ! 1) = [(''b'', 2)] \<and>
   fst (auto_expand good_oracle tree_heap 0 (Some mut_table)) = Inl ValueError \<and>
   modules (mods (snd (auto_expand good_oracle tree_heap 0 (Some mut_table))) ! 1)
     = [(''b'', 2), (''x'', 4)]"
proof -
  have t: "type_name (mods tree_heap ! 0) = ''Net''"
    "type_name (mods tree_heap ! Suc 0) = ''Block''"
    by (simp_all add: tree_heap_def other_def)
  have b: "build_mapping (rule_table good_oracle (Some mut_table)) (named_modules tree_heap 0)
             [] tree_heap = (Inl ValueError, set_child tree_heap 1 ''x'' 4)"
    unfolding named_modules_tree_heap rule_table_def
    by (simp add: t mut_table_def mut_raise_def)
  have c: "modules (mods (set_child tree_heap 1 ''x'' 4) ! 1) = [(''b'', 2), (''x'', 4)]"
    by (simp add: set_child_def tree_heap_def other_def)
  have o: "modules (mods tree_heap ! 1) = [(''b'', 2)]"
    by (simp add: tree_heap_def other_def)
  from b c o show ?thesis by (simp add: auto_expand_def)
qed

section \<open>Paths of the traversal\<close>

lemma split_dot_nonempty: "split_dot s \<noteq> []"
  by (induction s) auto

lemma split_dot_no_dot: "CHR ''.'' \<notin> set s \<Longrightarrow> split_dot s = [s]"
  by (induction s) auto

lemma split_dot_append:
  "split_dot (p @ CHR ''.'' # s) = split_dot p @ split_dot s"
  by (induction p) (auto simp: split_dot_nonempty)

lemma path_of_snoc: "path_of (segs @ [name]) = child_prefix (path_of segs) name"
  by (simp add: path_of_def)

lemma path_of_empty_iff:
  "\<forall>s\<in>set segs. valid_name s \<Longrightarrow> path_of segs = [] \<longleftrightarrow> segs = []"
proof (induction segs rule: rev_induct)
  case Nil
  then show ?case by (simp add: path_of_def)
next
  case (snoc s segs)
  then show ?case
    by (simp add: path_of_snoc child_prefix_def valid_name_def)
qed

lemma split_dot_path_of:
  "\<forall>s\<in>set segs. valid_name s \<Longrightarrow> segs \<noteq> [] \<Longrightarrow> split_dot (path_of segs) = segs"
proof (induction segs rule: rev_induct)
  case Nil
  then show ?case by simp
next
  case (snoc s segs)
  then have s: "CHR ''.'' \<notin> set s" and v: "\<forall>s\<in>set segs. valid_name s"
    by (simp_all add: valid_name_def)
  show ?case
  proof (cases "segs = []")
    case True
    with s show ?thesis
      by (simp add: path_of_def child_prefix_def split_dot_no_dot)
  next
    case False
    with path_of_empty_iff [OF v] have "path_of segs \<noteq> []" by simp
    then have "path_of (segs @ [s]) = path_of segs @ CHR ''.'' # s"
      by (simp add: path_of_snoc child_prefix_def)
    with snoc.IH [OF v False] s show ?thesis
      by (simp add: split_dot_append split_dot_no_dot)
  qed
qed

lemma walk_append:
  "walk h p (xs @ ys) = (case walk h p xs of Inl e \<Rightarrow> Inl e | Inr q \<Rightarrow> walk h q ys)"
  by (induction xs arbitrary: p) (auto split: option.splits)

lemma wf_heap_child:
  assumes "wf_heap h" and "m < length (mods h)" and "(name, child) \<in> set (modules (mods h ! m))"
  shows "distinct (map fst (modules (mods h ! m)))" and "child < length (mods h)"
    and "valid_name name"
proof -
  from assms(2) have "mods h ! m \<in> set (mods h)" by simp
  with assms(1) have a: "distinct (map fst (modules (mods h ! m))) \<and>
      (\<forall>(name, child) \<in> set (modules (mods h ! m)).
         child < length (mods h) \<and> name \<noteq> [] \<and> CHR ''.'' \<notin> set name)"
    unfolding wf_heap_def by blast
  then show "distinct (map fst (modules (mods h ! m)))" by simp
  from a assms(3) show "child < length (mods h)" by blast
  from a assms(3) show "valid_name name" unfolding valid_name_def by blast
qed

lemma named_modules_aux_reached:
  assumes "wf_heap h" and "\<forall>e\<in>set stack. snd e < length (mods h) \<longrightarrow> reached h model e"
  shows "\<forall>e\<in>set (named_modules_aux h memo stack). reached h model e"
  using assms
proof (induction h memo stack rule: named_modules_aux.induct)
  case (1 h memo)
  then show ?case by simp
next
  case (2 h memo pfx m stack)
  note wf = "2.prems"(1) and st = "2.prems"(2)
  show ?case
  proof (cases "m \<in> set memo \<or> \<not> m < length (mods h)")
    case True
    with 2 show ?thesis by simp
  next
    case False
    then have m: "m < length (mods h)" by simp
    with st have r: "reached h model (pfx, m)" by simp
    then obtain segs where segs: "pfx = path_of segs" "walk h model segs = Inr m"
      "\<forall>s\<in>set segs. valid_name s"
      by (auto simp: reached_def)
    have "\<forall>e\<in>set (map (\<lambda>(name, child). (child_prefix pfx name, child)) (modules (mods h ! m))).
            snd e < length (mods h) \<longrightarrow> reached h model e"
    proof (intro ballI impI)
      fix e
      assume e: "e \<in> set (map (\<lambda>(name, child). (child_prefix pfx name, child)) (modules (mods h ! m)))"
      then obtain name child where nc: "(name, child) \<in> set (modules (mods h ! m))"
        and e': "e = (child_prefix pfx name, child)"
        by auto
      from wf_heap_child [OF wf m nc] have d: "distinct (map fst (modules (mods h ! m)))"
        and c: "child < length (mods h)" and n: "valid_name name"
        by simp_all
      from d nc have "map_of (modules (mods h ! m)) name = Some child" by simp
      with segs have "walk h model (segs @ [name]) = Inr child"
        by (simp add: walk_append)
      with segs n c show "reached h model e"
        unfolding reached_def e' by (auto intro!: exI [of _ "segs @ [name]"] simp: path_of_snoc)
    qed
    with st have "\<forall>e\<in>set (map (\<lambda>(name, child). (child_prefix pfx name, child))
         (modules (mods h ! m)) @ stack). snd e < length (mods h) \<longrightarrow> reached h model e"
      by auto
    from "2.IH"(2) [OF False wf this] r False show ?thesis by simp
  qed
qed

lemma named_modules_reached:
  assumes "wf_heap h" and "model < length (mods h)"
  shows "\<forall>e\<in>set (named_modules h model). reached h model e"
  unfolding named_modules_def
proof (rule named_modules_aux_reached [OF assms(1)])
  have "reached h model ([], model)"
    unfolding reached_def using assms(2)
    by (auto intro!: exI [of _ "[]"] simp: path_of_def)
  then show "\<forall>e\<in>set [([], model)]. snd e < length (mods h) \<longrightarrow> reached h model e" by simp
qed

section \<open>Nodes of other kinds\<close>

lemma fresh_closed_extend:
  assumes "n \<le> length (mods h)" and "extends h h1" and "fresh_closed n h"
    and "fresh_closed (length (mods h)) h1"
  shows "fresh_closed n h1"
  unfolding fresh_closed_def
proof (intro allI impI)
  fix r
  assume r: "n \<le> r \<and> r < length (mods h1)"
  from assms(2) have len: "length (mods h) \<le> length (mods h1)"
    by (auto simp: extends_def prefix_def)
  show "\<forall>(name, c)\<in>set (modules (mods h1 ! r)). n \<le> c \<and> c < length (mods h1)"
  proof (cases "r < length (mods h)")
    case True
    with extends_nth [OF assms(2)] have "mods h1 ! r = mods h ! r" by simp
    moreover from assms(3) r True
    have "\<forall>(name, c)\<in>set (modules (mods h ! r)). n \<le> c \<and> c < length (mods h)"
      unfolding fresh_closed_def by blast
    ultimately show ?thesis using len by fastforce
  next
    case False
    with r have "length (mods h) \<le> r \<and> r < length (mods h1)" by simp
    with assms(4)
    have "\<forall>(name, c)\<in>set (modules (mods h1 ! r)). length (mods h) \<le> c \<and> c < length (mods h1)"
      unfolding fresh_closed_def by blast
    with assms(1) show ?thesis by fastforce
  qed
qed

lemma build_mapping_inv:
  assumes tbl: "\<forall>name f. tbl name = Some f \<longrightarrow> allocates_only f \<and> returns_fresh f"
    and names: "set names \<subseteq> S" "\<forall>e\<in>S. snd e < length (mods h0)"
    and h: "extends h0 h" "fresh_closed (length (mods h0)) h"
    and mp: "\<forall>e\<in>set mapping. entry_ok tbl h0 S h e"
    and res: "build_mapping tbl names mapping h = (res, h')"
  shows "extends h0 h' \<and> fresh_closed (length (mods h0)) h' \<and>
         (\<forall>mapping'. res = Inr mapping' \<longrightarrow> (\<forall>e\<in>set mapping'. entry_ok tbl h0 S h' e))"
  using names(1) h mp res
proof (induction names arbitrary: mapping h)
  case Nil
  then show ?case by auto
next
  case (Cons nm names)
  obtain name m where nm: "nm = (name, m)" by (cases nm)
  from Cons.prems(1) nm names(2) have mS: "(name, m) \<in> S" and m: "m < length (mods h0)"
    and sub: "set names \<subseteq> S"
    by auto
  from extends_nth [OF Cons.prems(2)] m have ty: "type_name (mods h ! m) = type_name (mods h0 ! m)"
    by simp
  from Cons.prems(2) have len0: "length (mods h0) \<le> length (mods h)"
    by (auto simp: extends_def prefix_def)
  show ?case
  proof (cases "tbl (type_name (mods h0 ! m))")
    case None
    with Cons.prems(5) ty have "build_mapping tbl names mapping h = (res, h')"
      by (simp add: nm)
    from Cons.IH [OF sub Cons.prems(2,3,4) this] show ?thesis .
  next
    case (Some f)
    obtain r1 h1 where f: "f h m = (r1, h1)" by (cases "f h m")
    from tbl Some have af: "allocates_only f" and rf: "returns_fresh f" by blast+
    from af f have e1: "extends h h1"
      unfolding allocates_only_def by (metis snd_conv)
    with Cons.prems(2) have e01: "extends h0 h1" by (rule extends_trans)
    from rf f have fc1: "fresh_closed (length (mods h)) h1"
      and fr: "\<And>r. r1 = Inr (Some r) \<Longrightarrow> length (mods h) \<le> r \<and> r < length (mods h1)"
      unfolding returns_fresh_def by (metis fst_conv snd_conv)+
    from fresh_closed_extend [OF len0 e1 Cons.prems(3) fc1]
    have fc01: "fresh_closed (length (mods h0)) h1" .
    from e1 have len1: "length (mods h) \<le> length (mods h1)"
      by (auto simp: extends_def prefix_def)
    from Cons.prems(4) len1 have mp1: "\<forall>e\<in>set mapping. entry_ok tbl h0 S h1 e"
      unfolding entry_ok_def by fastforce
    show ?thesis
    proof (cases r1)
      case (Inl e)
      with Cons.prems(5) Some ty f have "res = Inl e" "h' = h1"
        by (simp_all add: nm)
      with e01 fc01 show ?thesis by simp
    next
      case (Inr ro)
      show ?thesis
      proof (cases "\<exists>swapped. ro = Some swapped \<and> truthy (mods h1 ! swapped)")
        case False
        with Cons.prems(5) Some ty f Inr have "build_mapping tbl names mapping h1 = (res, h')"
          by (cases ro) (auto simp: nm)
        from Cons.IH [OF sub e01 fc01 mp1 this] show ?thesis .
      next
        case True
        then obtain swapped where sw: "ro = Some swapped" "truthy (mods h1 ! swapped)" by blast
        with Cons.prems(5) Some ty f Inr
        have b: "build_mapping tbl names (dict_set name swapped mapping) h1 = (res, h')"
          by (simp add: nm)
        from fr Inr sw have "length (mods h) \<le> swapped \<and> swapped < length (mods h1)" by simp
        with len0 mS Some have "entry_ok tbl h0 S h1 (name, swapped)"
          unfolding entry_ok_def by auto
        with mp1 set_dict_set [of name swapped mapping]
        have "\<forall>e\<in>set (dict_set name swapped mapping). entry_ok tbl h0 S h1 e"
          by auto
        from Cons.IH [OF sub e01 fc01 this b] show ?thesis .
      qed
    qed
  qed
qed


lemma fresh_closedD:
  assumes "fresh_closed n h" and "n \<le> r" and "r < length (mods h)"
    and "(name, c) \<in> set (modules (mods h ! r))"
  shows "n \<le> c \<and> c < length (mods h)"
proof -
  from assms(1-3) have "\<forall>(name, c)\<in>set (modules (mods h ! r)). n \<le> c \<and> c < length (mods h)"
    unfolding fresh_closed_def by blast
  with assms(4) show ?thesis by blast
qed

lemma slots_ok_child:
  assumes s: "slots_ok tbl h0 h" and wf: "wf_heap h0" and p: "p < length (mods h)"
    and c: "map_of (modules (mods h ! p)) name = Some c"
  shows "c < length (mods h)"
proof (cases "p < length (mods h0)")
  case True
  with s have "map_of (modules (mods h ! p)) name = map_of (modules (mods h0 ! p)) name \<or>
      (\<exists>c'. map_of (modules (mods h ! p)) name = Some c' \<and> c' < length (mods h))"
    unfolding slots_ok_def by blast
  then show ?thesis
  proof
    assume "map_of (modules (mods h ! p)) name = map_of (modules (mods h0 ! p)) name"
    with c have "(name, c) \<in> set (modules (mods h0 ! p))" by (simp add: map_of_SomeD)
    from wf_heap_child(2) [OF wf True this] s show ?thesis
      unfolding slots_ok_def by simp
  next
    assume "\<exists>c'. map_of (modules (mods h ! p)) name = Some c' \<and> c' < length (mods h)"
    with c show ?thesis by simp
  qed
next
  case False
  from c have "(name, c) \<in> set (modules (mods h ! p))" by (rule map_of_SomeD)
  moreover from s have "fresh_closed (length (mods h0)) h" unfolding slots_ok_def by simp
  ultimately show ?thesis using False p fresh_closedD [of "length (mods h0)" h p name c]
    by simp
qed

lemma slots_ok_walk_valid:
  assumes "slots_ok tbl h0 h" and "wf_heap h0"
  shows "p < length (mods h) \<Longrightarrow> walk h p segs = Inr q \<Longrightarrow> q < length (mods h)"
proof (induction segs arbitrary: p)
  case Nil
  then show ?case by simp
next
  case (Cons s segs)
  from Cons.prems(2) obtain c where c: "map_of (modules (mods h ! p)) s = Some c"
    and w: "walk h c segs = Inr q"
    by (auto split: option.splits)
  from slots_ok_child [OF assms Cons.prems(1) c] have "c < length (mods h)" .
  from Cons.IH [OF this w] show ?case .
qed

lemma walk_fresh:
  assumes "fresh_closed n h"
  shows "n \<le> p \<Longrightarrow> p < length (mods h) \<Longrightarrow> walk h p segs = Inr q \<Longrightarrow> n \<le> q"
proof (induction segs arbitrary: p)
  case Nil
  then show ?case by simp
next
  case (Cons s segs)
  from Cons.prems(3) obtain c where c: "map_of (modules (mods h ! p)) s = Some c"
    and w: "walk h c segs = Inr q"
    by (auto split: option.splits)
  from c have "(s, c) \<in> set (modules (mods h ! p))" by (rule map_of_SomeD)
  with assms Cons.prems(1,2) have "n \<le> c \<and> c < length (mods h)"
    by (rule fresh_closedD)
  with Cons.IH w show ?case by blast
qed

lemma walk_original:
  assumes s: "slots_ok tbl h0 h" and wf: "wf_heap h0"
  shows "p < length (mods h0) \<Longrightarrow> walk h p segs = Inr q \<Longrightarrow> q < length (mods h0)
           \<Longrightarrow> walk h0 p segs = Inr q"
proof (induction segs arbitrary: p)
  case Nil
  then show ?case by simp
next
  case (Cons sg segs)
  from Cons.prems(2) obtain c where c: "map_of (modules (mods h ! p)) sg = Some c"
    and w: "walk h c segs = Inr q"
    by (auto split: option.splits)
  from s Cons.prems(1)
  have "map_of (modules (mods h ! p)) sg = map_of (modules (mods h0 ! p)) sg \<or>
      (\<exists>c'. map_of (modules (mods h ! p)) sg = Some c' \<and> length (mods h0) \<le> c' \<and>
             c' < length (mods h))"
    unfolding slots_ok_def by blast
  then show ?case
  proof
    assume e: "map_of (modules (mods h ! p)) sg = map_of (modules (mods h0 ! p)) sg"
    with c have c0: "map_of (modules (mods h0 ! p)) sg = Some c" by simp
    then have "(sg, c) \<in> set (modules (mods h0 ! p))" by (rule map_of_SomeD)
    from wf_heap_child(2) [OF wf Cons.prems(1) this] have "c < length (mods h0)" .
    from Cons.IH [OF this w Cons.prems(3)] c0 show ?thesis by simp
  next
    assume "\<exists>c'. map_of (modules (mods h ! p)) sg = Some c' \<and> length (mods h0) \<le> c' \<and>
             c' < length (mods h)"
    with c have "length (mods h0) \<le> c" "c < length (mods h)" by simp_all
    moreover from s have "fresh_closed (length (mods h0)) h" unfolding slots_ok_def by simp
    ultimately have "length (mods h0) \<le> q" using w by (metis walk_fresh)
    with Cons.prems(3) show ?thesis by simp
  qed
qed

lemma slots_ok_set_child:
  assumes s: "slots_ok tbl h0 h" and q: "q < length (mods h)"
    and new: "length (mods h0) \<le> new" "new < length (mods h)"
    and orig: "q < length (mods h0) \<Longrightarrow>
         \<forall>c. map_of (modules (mods h0 ! q)) k = Some c \<longrightarrow> tbl (type_name (mods h0 ! c)) \<noteq> None"
  shows "slots_ok tbl h0 (set_child h q k new)"
proof -
  let ?h = "set_child h q k new"
  have len: "length (mods ?h) = length (mods h)" by (simp add: set_child_def)
  have mq: "modules (mods ?h ! q) = dict_set k new (modules (mods h ! q))"
    "type_name (mods ?h ! q) = type_name (mods h ! q)"
    "payload (mods ?h ! q) = payload (mods h ! q)"
    using q by (simp_all add: set_child_def)
  have other: "\<And>r. r \<noteq> q \<Longrightarrow> mods ?h ! r = mods h ! r"
    by (simp add: set_child_def)
  from s have fc: "fresh_closed (length (mods h0)) h" and l0: "length (mods h0) \<le> length (mods h)"
    unfolding slots_ok_def by simp_all
  have "fresh_closed (length (mods h0)) ?h"
    unfolding fresh_closed_def
  proof (intro allI impI)
    fix r
    assume r: "length (mods h0) \<le> r \<and> r < length (mods ?h)"
    with fc len have old: "\<forall>(name, c)\<in>set (modules (mods h ! r)).
        length (mods h0) \<le> c \<and> c < length (mods h)"
      unfolding fresh_closed_def by simp
    show "\<forall>(name, c)\<in>set (modules (mods ?h ! r)). length (mods h0) \<le> c \<and> c < length (mods ?h)"
    proof (cases "r = q")
      case True
      with old new set_dict_set [of k new "modules (mods h ! q)"] show ?thesis
        unfolding len mq(1) True by auto
    next
      case False
      with old show ?thesis unfolding len by (simp add: other)
    qed
  qed
  moreover have "\<forall>p<length (mods h0).
        type_name (mods ?h ! p) = type_name (mods h0 ! p) \<and>
        payload (mods ?h ! p) = payload (mods h0 ! p) \<and>
        (\<forall>name.
           map_of (modules (mods ?h ! p)) name = map_of (modules (mods h0 ! p)) name \<or>
           (\<exists>c'. map_of (modules (mods ?h ! p)) name = Some c' \<and>
                  length (mods h0) \<le> c' \<and> c' < length (mods ?h)) \<and>
           (\<forall>c. map_of (modules (mods h0 ! p)) name = Some c \<longrightarrow>
                  tbl (type_name (mods h0 ! c)) \<noteq> None))"
  proof (intro allI impI)
    fix p
    assume p: "p < length (mods h0)"
    with s have sp: "type_name (mods h ! p) = type_name (mods h0 ! p)"
      "payload (mods h ! p) = payload (mods h0 ! p)"
      "\<forall>name.
           map_of (modules (mods h ! p)) name = map_of (modules (mods h0 ! p)) name \<or>
           (\<exists>c'. map_of (modules (mods h ! p)) name = Some c' \<and>
                  length (mods h0) \<le> c' \<and> c' < length (mods h)) \<and>
           (\<forall>c. map_of (modules (mods h0 ! p)) name = Some c \<longrightarrow>
                  tbl (type_name (mods h0 ! c)) \<noteq> None)"
      unfolding slots_ok_def by blast+
    show "type_name (mods ?h ! p) = type_name (mods h0 ! p) \<and>
        payload (mods ?h ! p) = payload (mods h0 ! p) \<and>
        (\<forall>name.
           map_of (modules (mods ?h ! p)) name = map_of (modules (mods h0 ! p)) name \<or>
           (\<exists>c'. map_of (modules (mods ?h ! p)) name = Some c' \<and>
                  length (mods h0) \<le> c' \<and> c' < length (mods ?h)) \<and>
           (\<forall>c. map_of (modules (mods h0 ! p)) name = Some c \<longrightarrow>
                  tbl (type_name (mods h0 ! c)) \<noteq> None))"
    proof (cases "p = q")
      case False
      with sp show ?thesis unfolding len by (simp add: other)
    next
      case True
      from orig p True
      have o: "\<forall>c. map_of (modules (mods h0 ! p)) k = Some c \<longrightarrow> tbl (type_name (mods h0 ! c)) \<noteq> None"
        by simp
      show ?thesis
        unfolding True mq len map_of_dict_set
        using sp new o unfolding True by auto
    qed
  qed
  ultimately show ?thesis
    unfolding slots_ok_def using l0 len by simp
qed


lemma entry_slot:
  assumes wf: "wf_heap h0" and root: "model < length (mods h0)"
    and r: "reached h0 model (path, m)"
    and w: "walk h0 model (butlast (split_dot path)) = Inr q"
    and c: "map_of (modules (mods h0 ! q)) (last (split_dot path)) = Some c"
  shows "c = m"
proof -
  from r obtain segs where segs: "path = path_of segs" "walk h0 model segs = Inr m"
    "\<forall>s\<in>set segs. valid_name s"
    by (auto simp: reached_def)
  show ?thesis
  proof (cases "segs = []")
    case True
    with segs(1) have "split_dot path = [[]]" by (simp add: path_of_def)
    with w c have "map_of (modules (mods h0 ! model)) [] = Some c" by simp
    then have "([], c) \<in> set (modules (mods h0 ! model))" by (rule map_of_SomeD)
    from wf_heap_child(3) [OF wf root this] show ?thesis by (simp add: valid_name_def)
  next
    case False
    with split_dot_path_of [OF segs(3)] segs(1) have sp: "split_dot path = segs" by simp
    from False have "segs = butlast segs @ [last segs]" by simp
    with segs(2) have "walk h0 model (butlast segs @ [last segs]) = Inr m" by simp
    with w c show ?thesis
      unfolding sp by (simp add: walk_append)
  qed
qed

lemma swap_expanded_inv:
  assumes wf: "wf_heap h0" and root: "model < length (mods h0)"
    and S: "\<forall>e\<in>S. reached h0 model e"
  shows "slots_ok tbl h0 h \<Longrightarrow> \<forall>e\<in>set mapping. entry_ok tbl h0 S h e
           \<Longrightarrow> slots_ok tbl h0 (snd (swap_expanded h model mapping))"
proof (induction mapping arbitrary: h)
  case Nil
  then show ?case by simp
next
  case (Cons e mapping)
  obtain path new where e: "e = (path, new)" by (cases e)
  from Cons.prems(2) e obtain m where new: "length (mods h0) \<le> new" "new < length (mods h)"
    and m: "(path, m) \<in> S" "tbl (type_name (mods h0 ! m)) \<noteq> None"
    unfolding entry_ok_def by auto
  from S m(1) have r: "reached h0 model (path, m)" by blast
  from Cons.prems(1) have l0: "length (mods h0) \<le> length (mods h)"
    unfolding slots_ok_def by simp
  show ?case
  proof (cases "walk h model (butlast (split_dot path))")
    case (Inl err)
    with Cons.prems(1) show ?thesis by (simp add: e)
  next
    case (Inr q)
    from root l0 have "model < length (mods h)" by simp
    from slots_ok_walk_valid [OF Cons.prems(1) wf this Inr] have q: "q < length (mods h)" .
    have orig: "\<forall>c. map_of (modules (mods h0 ! q)) (last (split_dot path)) = Some c \<longrightarrow>
                  tbl (type_name (mods h0 ! c)) \<noteq> None"
      if "q < length (mods h0)"
    proof (intro allI impI)
      fix c
      assume c: "map_of (modules (mods h0 ! q)) (last (split_dot path)) = Some c"
      from walk_original [OF Cons.prems(1) wf root Inr that]
      have "walk h0 model (butlast (split_dot path)) = Inr q" .
      from entry_slot [OF wf root r this c] m(2)
      show "tbl (type_name (mods h0 ! c)) \<noteq> None" by simp
    qed
    let ?h = "set_child h q (last (split_dot path)) new"
    from slots_ok_set_child [OF Cons.prems(1) q new orig]
    have s: "slots_ok tbl h0 ?h" by simp
    have "length (mods ?h) = length (mods h)" by (simp add: set_child_def)
    with Cons.prems(2) have "\<forall>e\<in>set mapping. entry_ok tbl h0 S ?h e"
      unfolding entry_ok_def by simp
    from Cons.IH [OF s this] Inr show ?thesis by (simp add: e)
  qed
qed

text \<open>
  C8, amended. In a well-formed hierarchy, under a rule table whose conversion functions
  construct their replacements (they assign to no existing object, return a module
  they have just built, and give it only modules they built as children), every
  child entry of every module of the store that holds a node whose kind is not a key
  of the rule table holds the same node after auto_expand, whether the pass ends or
  raises, and the node keeps its type and payload.
\<close>

theorem auto_expand_keeps_other_kinds:
  assumes wf: "wf_heap h" and root: "model < length (mods h)"
    and tbl: "\<forall>name f. rule_table oracle expansions name = Some f
                \<longrightarrow> allocates_only f \<and> returns_fresh f"
    and p: "p < length (mods h)" and c: "map_of (modules (mods h ! p)) name = Some c"
    and k: "rule_table oracle expansions (type_name (mods h ! c)) = None"
  shows "map_of (modules (mods (snd (auto_expand oracle h model expansions)) ! p)) name = Some c \<and>
         type_name (mods (snd (auto_expand oracle h model expansions)) ! c) = type_name (mods h ! c) \<and>
         payload (mods (snd (auto_expand oracle h model expansions)) ! c) = payload (mods h ! c)"
proof -
  let ?tbl = "rule_table oracle expansions"
  let ?S = "set (named_modules h model)"
  from c have "(name, c) \<in> set (modules (mods h ! p))" by (rule map_of_SomeD)
  from wf_heap_child(2) [OF wf p this] have cv: "c < length (mods h)" .
  have S: "\<forall>e\<in>?S. reached h model e"
    by (rule named_modules_reached [OF wf root])
  then have Sv: "\<forall>e\<in>?S. snd e < length (mods h)"
    unfolding reached_def by blast
  obtain res h1 where b: "build_mapping ?tbl (named_modules h model) [] h = (res, h1)"
    by (cases "build_mapping ?tbl (named_modules h model) [] h")
  have fc0: "fresh_closed (length (mods h)) h"
    by (simp add: fresh_closed_def)
  from build_mapping_inv [OF tbl subset_refl Sv extends_refl fc0 _ b]
  have e1: "extends h h1" and fc1: "fresh_closed (length (mods h)) h1"
    and mp: "\<forall>mapping'. res = Inr mapping' \<longrightarrow> (\<forall>e\<in>set mapping'. entry_ok ?tbl h ?S h1 e)"
    by simp_all
  from e1 have l1: "length (mods h) \<le> length (mods h1)"
    by (auto simp: extends_def prefix_def)
  have s1: "slots_ok ?tbl h h1"
    unfolding slots_ok_def using extends_nth [OF e1] fc1 l1 by simp
  have "slots_ok ?tbl h (snd (auto_expand oracle h model expansions))"
  proof (cases res)
    case (Inl err)
    with b s1 show ?thesis by (simp add: auto_expand_def)
  next
    case (Inr mapping)
    with mp have "\<forall>e\<in>set mapping. entry_ok ?tbl h ?S h1 e" by simp
    from swap_expanded_inv [OF wf root S s1 this] b Inr show ?thesis
      by (simp add: auto_expand_def)
  qed
  then have f: "\<forall>p<length (mods h).
        type_name (mods (snd (auto_expand oracle h model expansions)) ! p) = type_name (mods h ! p) \<and>
        payload (mods (snd (auto_expand oracle h model expansions)) ! p) = payload (mods h ! p) \<and>
        (\<forall>name.
           map_of (modules (mods (snd (auto_expand oracle h model expansions)) ! p)) name
             = map_of (modules (mods h ! p)) name \<or>
           (\<forall>c. map_of (modules (mods h ! p)) name = Some c \<longrightarrow>
                  ?tbl (type_name (mods h ! c)) \<noteq> None))"
    unfolding slots_ok_def by blast
  from f p c k have "map_of (modules (mods (snd (auto_expand oracle h model expansions)) ! p)) name
             = map_of (modules (mods h ! p)) name"
    by blast
  with f cv c show ?thesis by simp
qed


lemma fresh_closed_alloc:
  fixes h h' :: heap
  assumes "mods h' = mods h @ [m]" and "modules m = []"
  shows "fresh_closed (length (mods h)) h'"
  unfolding fresh_closed_def assms(1)
proof (intro allI impI)
  fix r
  assume "length (mods h) \<le> r \<and> r < length (mods h @ [m])"
  then have "r = length (mods h)" by simp
  with assms(2) show "\<forall>(name, c)\<in>set (modules ((mods h @ [m]) ! r)).
      length (mods h) \<le> c \<and> c < length (mods h @ [m])"
    by simp
qed

lemma expand_Conv1D_fresh:
  "fresh_closed (length (mods h)) (snd (expand_Conv1D probe h m)) \<and>
   (\<forall>r. fst (expand_Conv1D probe h m) = Inr (Some r) \<longrightarrow>
      length (mods h) \<le> r \<and> r < length (mods (snd (expand_Conv1D probe h m))))"
proof -
  show ?thesis
  proof (cases "payload (mods h ! m)")
    case (Conv1d c)
    then have a: "\<exists>x. mods (snd (expand_Conv1D probe h m)) = mods h @ [x] \<and> modules x = []"
      by (cases "validate probe [0 ..< 2]")
         (simp_all add: expand_Conv1D_def unsqueeze_last_def Parameter_def alloc_tensor_def
            alloc_module_def)
    from Conv1d have b: "\<forall>r. fst (expand_Conv1D probe h m) = Inr (Some r) \<longrightarrow> r = length (mods h)"
      by (cases "validate probe [0 ..< 2]")
         (simp_all add: expand_Conv1D_def unsqueeze_last_def Parameter_def alloc_tensor_def
            alloc_module_def)
    from a obtain x where x: "mods (snd (expand_Conv1D probe h m)) = mods h @ [x]" "modules x = []"
      by blast
    from fresh_closed_alloc [OF x] x(1) b show ?thesis by simp
  qed (simp_all add: expand_Conv1D_def fresh_closed_def)
qed

lemma expand_BatchNorm1d_fresh: "returns_fresh expand_BatchNorm1d"
  unfolding returns_fresh_def
proof (intro allI)
  fix h m
  show "fresh_closed (length (mods h)) (snd (expand_BatchNorm1d h m)) \<and>
        (\<forall>r. fst (expand_BatchNorm1d h m) = Inr (Some r) \<longrightarrow>
           length (mods h) \<le> r \<and> r < length (mods (snd (expand_BatchNorm1d h m))))"
  proof (cases "payload (mods h ! m)")
    case (BatchNorm1d b)
    obtain b2 h1 where i: "BatchNorm2d_init (num_features b) (eps b) (momentum b) (affine b)
                             (track_running_stats b) h = (b2, h1)"
      by (cases "BatchNorm2d_init (num_features b) (eps b) (momentum b) (affine b)
                             (track_running_stats b) h")
    let ?x = "\<lparr>type_name = ''BatchNorm2d'', payload = BatchNorm2d b2, modules = []\<rparr>"
    let ?h2 = "h1\<lparr>mods := mods h1 @ [?x]\<rparr>"
    from BatchNorm2d_init_fresh [OF i] have m1: "mods h1 = mods h" by simp
    from copy_entries_frame [of "state_dict b2" 0 ?h2 "state_dict b"]
    have c: "mods (snd (copy_entries (state_dict b2) (state_dict b) ?h2)) = mods h @ [?x]"
      by (simp add: m1)
    have s: "snd (expand_BatchNorm1d h m) = snd (copy_entries (state_dict b2) (state_dict b) ?h2)"
      using BatchNorm1d i
      by (auto simp: expand_BatchNorm1d_def alloc_module_def load_state_dict_def Let_def
            split: prod.splits option.splits)
    have f: "\<forall>r. fst (expand_BatchNorm1d h m) = Inr (Some r) \<longrightarrow> r = length (mods h)"
      using BatchNorm1d i
      by (auto simp: expand_BatchNorm1d_def alloc_module_def load_state_dict_def Let_def m1
            split: prod.splits option.splits)
    from fresh_closed_alloc [of "snd (expand_BatchNorm1d h m)" h ?x] c s f show ?thesis
      by simp
  qed (simp_all add: expand_BatchNorm1d_def fresh_closed_def)
qed

lemma simple_expand_fresh:
  assumes "\<forall>args m. DestT args = Inr m \<longrightarrow> modules m = []"
  shows "returns_fresh (simple_expand BaseT DestT)"
  unfolding returns_fresh_def
proof (intro allI)
  fix h :: heap and m :: ref
  let ?args = "map (getattr (mods h ! m)) (constants_of (payload (mods h ! m)))"
  show "fresh_closed (length (mods h)) (snd (simple_expand BaseT DestT h m)) \<and>
        (\<forall>r. fst (simple_expand BaseT DestT h m) = Inr (Some r) \<longrightarrow>
           length (mods h) \<le> r \<and> r < length (mods (snd (simple_expand BaseT DestT h m))))"
  proof (cases "isinstance (mods h ! m) BaseT \<and> (\<exists>x. DestT ?args = Inr x)")
    case True
    then obtain x where x: "DestT ?args = Inr x" by blast
    with assms have "modules x = []" by blast
    from fresh_closed_alloc [of "h\<lparr>mods := mods h @ [x]\<rparr>" h x, OF _ this] True x
    show ?thesis by (simp add: simple_expand_def alloc_module_def)
  next
    case False
    then show ?thesis
      by (cases "DestT ?args") (auto simp: simple_expand_def fresh_closed_def)
  qed
qed

lemma default_expansions_fresh:
  "default_expansions oracle name = Some f \<Longrightarrow> returns_fresh f"
proof -
  have "returns_fresh (\<lambda>h m. expand_Conv1D (oracle m) h m)"
    unfolding returns_fresh_def using expand_Conv1D_fresh by blast
  moreover have "returns_fresh (simple_expand (nn_other ''AdaptiveAvgPool1d'') AdaptiveAvgPool2d)"
    by (rule simple_expand_fresh) (auto simp: AdaptiveAvgPool2d_def split: list.splits)
  moreover have "returns_fresh (simple_expand (nn_other ''AvgPool1d'') AvgPool2d)"
    by (rule simple_expand_fresh) (auto simp: AvgPool2d_def split: if_splits)
  ultimately show "default_expansions oracle name = Some f \<Longrightarrow> returns_fresh f"
    by (auto simp: default_expansions_def expand_BatchNorm1d_fresh split: if_splits)
qed

theorem auto_expand_keeps_other_kinds_witness:
  "wf_heap tree_heap \<and> map_of (modules (mods tree_heap ! 2)) ''e'' = Some 5 \<and>
   rule_table good_oracle None (type_name (mods tree_heap ! 5)) = None \<and>
   map_of (modules (mods (snd (auto_expand good_oracle tree_heap 0 None)) ! 2)) ''e'' = Some 5 \<and>
   type_name (mods (snd (auto_expand good_oracle tree_heap 0 None)) ! 5) = ''ReLU''"
proof -
  have wf: "wf_heap tree_heap"
    by (simp add: wf_heap_def tree_heap_def other_def)
  have root: "(0::nat) < length (mods tree_heap)" and p: "(2::nat) < length (mods tree_heap)"
    by (simp_all add: tree_heap_def)
  have tbl: "\<forall>name f. rule_table good_oracle None name = Some f
                \<longrightarrow> allocates_only f \<and> returns_fresh f"
    by (simp add: rule_table_def default_expansions_allocate default_expansions_fresh)
  have c: "map_of (modules (mods tree_heap ! 2)) ''e'' = Some 5"
    by (simp add: tree_heap_def other_def)
  have k: "rule_table good_oracle None (type_name (mods tree_heap ! 5)) = None"
    by (simp add: rule_table_def default_expansions_def tree_heap_def other_def)
  from auto_expand_keeps_other_kinds [OF wf root tbl p c k] wf c k show ?thesis
    by (simp add: tree_heap_def other_def)
qed

lemma named_modules_wrap_heap:
  "named_modules wrap_heap 0 = [([], 0), (''a'', 1), (''a.0'', 2), (''a.0.c'', 4), (''a.c'', 3)]"
  by (simp add: named_modules_def wrap_heap_def other_def child_prefix_def)

text \<open>
  C8 as stated fails. Under a rule table that wraps every \<open>Block\<close> in a new
  container holding the block itself as child \<open>0\<close>, the path \<open>a.0.c\<close> of a
  traversed convolution, walked after \<open>a\<close> has been replaced by the container, leads
  back into the block \<open>a\<close>: its child \<open>c\<close>, a \<open>ReLU\<close> whose kind is not in the table,
  is replaced by the new 2-D convolution.
\<close>

theorem auto_expand_substitutes_other_kind:
  "map_of (modules (mods wrap_heap ! 1)) ''c'' = Some 3 \<and>
   type_name (mods wrap_heap ! 3) = ''ReLU'' \<and>
   rule_table good_oracle (Some wrap_table) ''ReLU'' = None \<and>
   fst (auto_expand good_oracle wrap_heap 0 (Some wrap_table)) = Inr 0 \<and>
   map_of (modules (mods (snd (auto_expand good_oracle wrap_heap 0 (Some wrap_table))) ! 1)) ''c''
     = Some 6"
proof -
  let ?seq = "\<lparr>type_name = ''Sequential'',
         payload = Plain \<lparr>cls = ''Sequential'', defines_len = True, constants = [], attrs = []\<rparr>,
         modules = [(''0'', Suc 0)]\<rparr>"
  let ?h1 = "wrap_heap\<lparr>mods := mods wrap_heap @ [?seq]\<rparr>"
  have t: "type_name (mods wrap_heap ! 0) = ''Net''"
    "type_name (mods wrap_heap ! Suc 0) = ''Block''"
    "type_name ((mods wrap_heap @ [?seq]) ! 2) = ''Inner''"
    "type_name ((mods wrap_heap @ [?seq]) ! 4) = ''Conv1d''"
    by (simp_all add: wrap_heap_def other_def)
  have l: "wrap_table ''Net'' = None" "wrap_table ''Block'' = Some wrap"
    "wrap_table ''Inner'' = None" "wrap_table ''ReLU'' = None"
    "wrap_table ''Conv1d'' = Some (expand_Conv1D good_probe)"
    by (simp_all add: wrap_table_def)
  have w: "wrap wrap_heap (Suc 0) = (Inr (Some 5), ?h1)"
    by (simp add: wrap_def alloc_module_def wrap_heap_def)
  have tr: "truthy ((mods wrap_heap @ [?seq]) ! 5)"
    by (simp add: truthy_def wrap_heap_def)
  have v: "validate good_probe [0 ..< 2] = None"
    by (simp add: validate_two good_probe_def)
  obtain h2 where e: "expand_Conv1D good_probe ?h1 4 = (Inr (Some 6), h2)"
    and m2: "mods h2 = mods ?h1 @ [\<lparr>type_name = ''Conv2d'',
                 payload = Conv2d \<lparr>in_channels = 1, out_channels = 1, kernel_size = (3, 1),
                   stride = (1, 1), padding = (1, 0), dilation = (1, 1), groups = 1,
                   padding_mode = ''zeros'', weight = 3, bias = Some 1\<rparr>, modules = []\<rparr>]"
    by (simp add: expand_Conv1D_def v wrap_heap_def conv_example_def unsqueeze_last_def
          Parameter_def alloc_tensor_def alloc_module_def)
  have t2: "type_name (mods h2 ! 3) = ''ReLU''" "truthy (mods h2 ! 6)"
    by (simp_all add: m2 wrap_heap_def other_def truthy_def)
  have b: "build_mapping wrap_table (named_modules wrap_heap 0) [] wrap_heap
             = (Inr [(''a'', 5), (''a.0.c'', 6)], h2)"
    unfolding named_modules_wrap_heap
    by (simp add: t l w tr e t2)
  have s: "map_of (modules (mods (snd (swap_expanded h2 0 [(''a'', 5), (''a.0.c'', 6)])) ! 1)) ''c''
             = Some 6 \<and> fst (swap_expanded h2 0 [(''a'', 5), (''a.0.c'', 6)]) = Inr 0"
    by (simp add: set_child_def m2 wrap_heap_def other_def)
  have a: "auto_expand good_oracle wrap_heap 0 (Some wrap_table)
             = swap_expanded h2 0 [(''a'', 5), (''a.0.c'', 6)]"
    by (simp add: auto_expand_def rule_table_def b)
  show ?thesis
    unfolding a using s by (simp add: wrap_heap_def other_def rule_table_def l)
qed

end
